theory Spec2Isabelle
  imports Main "HOL-Library.AList"
begin

section \<open>Strings\<close>

text \<open>
  A Python \<open>str\<close> is a sequence of Unicode code points; a code point is a natural
  number here. \<open>lit\<close> embeds an ASCII literal of the source.
\<close>

type_synonym pystr = "nat list"

definition lit :: "string \<Rightarrow> pystr" where
  "lit s = map of_char s"

text \<open>The separator of the address line: U+00B7 MIDDLE DOT.\<close>

definition middle_dot :: nat where
  "middle_dot = 0xB7"

text \<open>
  \<open>text.split(sep)\<close> for a separator of one code point: the pieces between the
  occurrences of the separator, so one piece more than there are separators. The result
  of the recursive call is never empty (\<open>split_nonempty\<close> below), so the first branch
  of the \<open>case\<close> is never taken.
\<close>

fun split :: "nat \<Rightarrow> pystr \<Rightarrow> pystr list" where
  "split sep [] = [[]]"
| "split sep (c # cs) =
     (if c = sep then [] # split sep cs
      else (case split sep cs of [] \<Rightarrow> [[c]] | p # ps \<Rightarrow> (c # p) # ps))"

text \<open>
  \<open>str.isspace\<close> for one code point (the white space of the Unicode database, as
  CPython lists it), and \<open>str.strip()\<close>, which removes leading and trailing white space.
\<close>

definition isspace :: "nat \<Rightarrow> bool" where
  "isspace c \<longleftrightarrow>
     (0x09 \<le> c \<and> c \<le> 0x0D) \<or> (0x1C \<le> c \<and> c \<le> 0x20) \<or> c = 0x85 \<or> c = 0xA0 \<or>
     c = 0x1680 \<or> (0x2000 \<le> c \<and> c \<le> 0x200A) \<or> c = 0x2028 \<or> c = 0x2029 \<or>
     c = 0x202F \<or> c = 0x205F \<or> c = 0x3000"

definition strip :: "pystr \<Rightarrow> pystr" where
  "strip s = rev (dropWhile isspace (rev (dropWhile isspace s)))"

section \<open>Exceptions and log records\<close>

text \<open>
  The exceptions of the model are instances of \<open>Exception\<close>: those of the browser
  driver, of the URL encoding and of a frame asked for a missing column. What
  \<open>except Exception\<close> does not catch (an interrupt, an exit) is outside the model.
\<close>

datatype exn =
  TimeoutException | NoSuchElementException | WebDriverException | UnicodeEncodeError
  | KeyError pystr

text \<open>
  The logger is modelled by the list of records a function emits, each a level and a
  message; the values interpolated into a message are the arguments of its constructor.
\<close>

datatype level = INFO | WARNING | ERROR | CRITICAL

datatype message =
  NavigatingTo pystr
  | ConsentClicked
  | ConsentNotFound
  | NoScrollableElement
  | ReachedEnd nat
  | ScrapeError pystr exn
  | FoundListings nat
  | CouldNotParse exn
  | NoDataToSave
  | Saved nat pystr
  | FailedDriverInit exn
  | StartingSearch pystr
  | SearchingFor pystr
  | FoundResults nat pystr pystr
  | NoResults pystr pystr
  | NoBusinessesFound
  | CriticalError exn
  | BrowserClosed

type_synonym log = "(level \<times> message) list"

section \<open>The extractor: parse_results\<close>

text \<open>
  A business record is a Python dict from field names to strings: an association list in
  insertion order. \<open>d[k] = v\<close> is \<open>AList.update k v d\<close>, \<open>d.get(k)\<close> is
  \<open>map_of d k\<close>.
\<close>

type_synonym business = "(pystr \<times> pystr) list"

text \<open>
  What the HTML parser reports for one candidate container (a \<open>div\<close> whose
  \<open>jsaction\<close> matches \<open>mouseover:pane\<close>): the text of the first \<open>div.qBF1Pd\<close>, of the
  first \<open>span.UsdlK\<close> and of the first \<open>div.W4Efsd\<close> inside it, \<open>None\<close> where
  \<open>find\<close> returns no element. The page is the list of its candidate containers in
  document order.
\<close>

record listing =
  name_tag :: "pystr option"
  phone_tag :: "pystr option"
  address_container :: "pystr option"

type_synonym page = "listing list"

definition sentinel :: pystr where
  "sentinel = lit ''N/A''"

text \<open>Lines 141 to 149: the address of one listing.\<close>

definition extract_address :: "pystr option \<Rightarrow> pystr" where
  "extract_address container =
     (case container of
        Some txt \<Rightarrow>
          (let address_parts = split middle_dot txt
           in if length address_parts > 1 then strip (last address_parts) else txt)
      | None \<Rightarrow> [])"

text \<open>
  Lines 132 to 157, the body of the loop for one listing: the record that is appended, or
  \<open>None\<close> when nothing is appended. No operation of the body raises on these data, so
  the handler of line 159 has no branch here.
\<close>

definition parse_listing :: "listing \<Rightarrow> pystr \<Rightarrow> pystr \<Rightarrow> business option" where
  "parse_listing listing district keyword =
     (let business_data = [];
          business_data = AList.update (lit ''name'')
            (case name_tag listing of Some t \<Rightarrow> t | None \<Rightarrow> sentinel) business_data;
          business_data = AList.update (lit ''phone'')
            (case phone_tag listing of Some t \<Rightarrow> t | None \<Rightarrow> []) business_data;
          business_data = AList.update (lit ''address'')
            (extract_address (address_container listing)) business_data;
          business_data = AList.update (lit ''district'') district business_data;
          business_data = AList.update (lit ''category'') keyword business_data
      in if map_of business_data (lit ''name'') \<noteq> Some sentinel then Some business_data
         else None)"

fun parse_loop :: "listing list \<Rightarrow> pystr \<Rightarrow> pystr \<Rightarrow> business list \<Rightarrow> business list" where
  "parse_loop [] district keyword businesses = businesses"
| "parse_loop (listing # listings) district keyword businesses =
     parse_loop listings district keyword
       (case parse_listing listing district keyword of
          Some business_data \<Rightarrow> businesses @ [business_data]
        | None \<Rightarrow> businesses)"

definition parse_results :: "page \<Rightarrow> pystr \<Rightarrow> pystr \<Rightarrow> business list \<times> log" where
  "parse_results listings district keyword =
     (parse_loop listings district keyword [], [(INFO, FoundListings (length listings))])"

section \<open>Persistence: save_to_csv\<close>

text \<open>
  A data frame is its column labels and its rows, each row the cells under the labels, in
  their order. A cell holds a string, or NaN where the record of the row has no such key.
\<close>

datatype cell = NaN | Str pystr

record dataframe =
  columns :: "pystr list"
  rows :: "cell list list"

text \<open>
  Keeping first occurrences: an element is kept unless its key was seen before. This is
  the order in which \<open>pd.DataFrame\<close> collects the keys of a list of dicts as columns, and
  what \<open>drop_duplicates(keep='first')\<close> does to the rows.
\<close>

fun keep_first :: "('a \<Rightarrow> 'k) \<Rightarrow> 'k list \<Rightarrow> 'a list \<Rightarrow> 'a list" where
  "keep_first key seen [] = []"
| "keep_first key seen (x # xs) =
     (if key x \<in> set seen then keep_first key seen xs
      else x # keep_first key (key x # seen) xs)"

text \<open>\<open>pd.DataFrame(businesses)\<close> for a list of dicts.\<close>

definition DataFrame :: "business list \<Rightarrow> dataframe" where
  "DataFrame businesses =
     (let cols = keep_first (\<lambda>k. k) [] (concat (map (map fst) businesses))
      in \<lparr>columns = cols,
          rows = map (\<lambda>b. map (\<lambda>c. case map_of b c of Some v \<Rightarrow> Str v | None \<Rightarrow> NaN) cols)
                   businesses\<rparr>)"

text \<open>
  \<open>df[col] = value\<close> for a label that is not a column yet (the guard of line 174): a new
  last column with the value in every row.
\<close>

definition new_column :: "dataframe \<Rightarrow> pystr \<Rightarrow> cell \<Rightarrow> dataframe" where
  "new_column df col v = \<lparr>columns = columns df @ [col], rows = map (\<lambda>r. r @ [v]) (rows df)\<rparr>"

text \<open>Lines 173 to 175.\<close>

fun fill_columns :: "pystr list \<Rightarrow> dataframe \<Rightarrow> dataframe" where
  "fill_columns [] df = df"
| "fill_columns (col # cols) df =
     fill_columns cols (if col \<notin> set (columns df) then new_column df col (Str []) else df)"

text \<open>The cell of a row under a label.\<close>

definition cell_at :: "pystr list \<Rightarrow> cell list \<Rightarrow> pystr \<Rightarrow> cell" where
  "cell_at cols row col = the (map_of (zip cols row) col)"

text \<open>\<open>df[cols]\<close>: the listed columns in the listed order; a missing label is a KeyError.\<close>

definition getitem :: "dataframe \<Rightarrow> pystr list \<Rightarrow> exn + dataframe" where
  "getitem df cols =
     (case filter (\<lambda>c. c \<notin> set (columns df)) cols of
        c # _ \<Rightarrow> Inl (KeyError c)
      | [] \<Rightarrow> Inr \<lparr>columns = cols,
                  rows = map (\<lambda>row. map (cell_at (columns df) row) cols) (rows df)\<rparr>)"

text \<open>
  \<open>df.drop_duplicates(subset=..., keep='first')\<close>: rows are compared on the cells under the
  labels of the subset (NaN equal to NaN, as pandas compares missing values here).
\<close>

definition drop_duplicates :: "dataframe \<Rightarrow> pystr list \<Rightarrow> exn + dataframe" where
  "drop_duplicates df subset_cols =
     (case filter (\<lambda>c. c \<notin> set (columns df)) subset_cols of
        c # _ \<Rightarrow> Inl (KeyError c)
      | [] \<Rightarrow> Inr (df\<lparr>rows := keep_first (\<lambda>row. map (cell_at (columns df) row) subset_cols) []
                                (rows df)\<rparr>))"

text \<open>
  The files written by \<open>to_csv\<close>: a file holds the frame written to it, header and rows
  (\<open>index=False\<close>), and the write itself is taken to succeed. In the text of the file a
  cell becomes a field: \<open>to_csv_field\<close> is the field as a CSV reader reads it back, the
  string of the cell, and the empty field for NaN (\<open>na_rep\<close> is the empty string by
  default). So a missing value and an empty string are different cells and the same
  field.
\<close>

type_synonym files = "pystr \<rightharpoonup> dataframe"

definition to_csv_field :: "cell \<Rightarrow> pystr" where
  "to_csv_field c = (case c of NaN \<Rightarrow> [] | Str v \<Rightarrow> v)"

definition expected_columns :: "pystr list" where
  "expected_columns =
     [lit ''name'', lit ''phone'', lit ''address'', lit ''district'', lit ''category'']"

text \<open>
  \<open>save_to_csv\<close> returns the exception it raises (\<open>None\<close>: it returns normally), the
  files after the call and the log records it emits.
\<close>

definition save_to_csv :: "files \<Rightarrow> business list \<Rightarrow> pystr \<Rightarrow> exn option \<times> files \<times> log" where
  "save_to_csv fs businesses filename =
     (if businesses = [] then (None, fs, [(WARNING, NoDataToSave)])
      else
        (let df = DataFrame businesses;
             df = fill_columns expected_columns df
         in case getitem df expected_columns of
              Inl e \<Rightarrow> (Some e, fs, [])
            | Inr df \<Rightarrow>
                (case drop_duplicates df [lit ''name'', lit ''address''] of
                   Inl e \<Rightarrow> (Some e, fs, [])
                 | Inr df_unique \<Rightarrow>
                     (None, fs(filename \<mapsto> df_unique),
                      [(INFO, Saved (length (rows df_unique)) filename)]))))"

section \<open>The loader: search_and_scrape\<close>

subsection \<open>The search URL\<close>

text \<open>
  \<open>urllib.parse.quote\<close> with its default arguments: the string is encoded as UTF-8
  (strictly: a surrogate code point is a UnicodeEncodeError), letters, digits and the bytes
  of \<open>_.-~/\<close> stay, every other byte becomes \<open>%XX\<close>.
\<close>

definition utf8 :: "nat \<Rightarrow> exn + nat list" where
  "utf8 c =
     (if c < 0x80 then Inr [c]
      else if c < 0x800 then Inr [0xC0 + c div 64, 0x80 + c mod 64]
      else if 0xD800 \<le> c \<and> c < 0xE000 then Inl UnicodeEncodeError
      else if c < 0x10000 then
        Inr [0xE0 + c div 4096, 0x80 + c div 64 mod 64, 0x80 + c mod 64]
      else
        Inr [0xF0 + c div 262144, 0x80 + c div 4096 mod 64, 0x80 + c div 64 mod 64,
             0x80 + c mod 64])"

definition hex_digit :: "nat \<Rightarrow> nat" where
  "hex_digit d = (if d < 10 then 0x30 + d else 0x41 + (d - 10))"

definition always_safe :: "nat \<Rightarrow> bool" where
  "always_safe b \<longleftrightarrow>
     (0x41 \<le> b \<and> b \<le> 0x5A) \<or> (0x61 \<le> b \<and> b \<le> 0x7A) \<or> (0x30 \<le> b \<and> b \<le> 0x39) \<or>
     b = 0x5F \<or> b = 0x2E \<or> b = 0x2D \<or> b = 0x7E"

definition quote_byte :: "nat \<Rightarrow> pystr" where
  "quote_byte b =
     (if always_safe b \<or> b = 0x2F then [b]
      else [0x25, hex_digit (b div 16), hex_digit (b mod 16)])"

fun quote :: "pystr \<Rightarrow> exn + pystr" where
  "quote [] = Inr []"
| "quote (c # cs) =
     (case utf8 c of
        Inl e \<Rightarrow> Inl e
      | Inr bs \<Rightarrow>
          (case quote cs of
             Inl e \<Rightarrow> Inl e
           | Inr r \<Rightarrow> Inr (concat (map quote_byte bs) @ r)))"

subsection \<open>The browser during one call\<close>

text \<open>
  The browser is outside the program. A session is what it answers during one call of
  \<open>search_and_scrape\<close>: for each call of the driver, the exception it raises or the value
  it returns. Where the source only needs to know whether the call raised, the answer is
  an \<open>exn option\<close> (\<open>None\<close>: no exception). The heights and the scrolls are numbered: the
  measurement of line 95 is number 0, the one of line 103 in the \<open>n\<close>-th pass of the loop
  is number \<open>n\<close>; the scroll of line 100 in the first pass is number 0. \<open>page_source\<close> is
  the page as the HTML parser reads it.
\<close>

datatype element = ResultsPane | Feed | Body

record session =
  navigate :: "pystr \<Rightarrow> exn option"
  consent_wait :: "exn option"
  consent_click :: "exn option"
  results_wait :: "exn option"
  locate_results :: "exn option"
  locate_feed :: "exn option"
  locate_body :: "exn option"
  scroll_height :: "element \<Rightarrow> nat \<Rightarrow> exn + int"
  scroll_to_bottom :: "element \<Rightarrow> nat \<Rightarrow> exn option"
  page_source :: "exn + page"

text \<open>Lines 51 to 61. Every exception is caught, so only log records come back.\<close>

definition handle_consent :: "session \<Rightarrow> log" where
  "handle_consent s =
     (case consent_wait s of
        Some e \<Rightarrow> [(INFO, ConsentNotFound)]
      | None \<Rightarrow>
          (case consent_click s of
             Some e \<Rightarrow> [(INFO, ConsentNotFound)]
           | None \<Rightarrow> [(INFO, ConsentClicked)]))"

text \<open>Lines 81 to 93: the element that is scrolled.\<close>

definition locate_scrollable :: "session \<Rightarrow> (exn + element) \<times> log" where
  "locate_scrollable s =
     (case locate_results s of
        None \<Rightarrow> (Inr ResultsPane, [])
      | Some _ \<Rightarrow>
          (case locate_feed s of
             None \<Rightarrow> (Inr Feed, [])
           | Some _ \<Rightarrow>
               (case locate_body s of
                  None \<Rightarrow> (Inr Body, [(WARNING, NoScrollableElement)])
                | Some e \<Rightarrow> (Inl e, [(WARNING, NoScrollableElement)]))))"

subsection \<open>The scroll loop\<close>

text \<open>
  The variables of the loop of lines 99 to 111, and the number of passes made so far,
  which is the number of the browser's next answers.
\<close>

record loop_state =
  last_height :: int
  scroll_attempts :: nat
  passes :: nat

definition max_scroll_attempts :: nat where
  "max_scroll_attempts = 10"

text \<open>One pass through the body of the loop: an exception, the \<open>break\<close>, or the next pass.\<close>

datatype outcome = Raise exn | Break loop_state | Continue loop_state

definition scroll_pass :: "session \<Rightarrow> element \<Rightarrow> loop_state \<Rightarrow> outcome" where
  "scroll_pass s scrollable_element st =
     (case scroll_to_bottom s scrollable_element (passes st) of
        Some e \<Rightarrow> Raise e
      | None \<Rightarrow>
          (case scroll_height s scrollable_element (Suc (passes st)) of
             Inl e \<Rightarrow> Raise e
           | Inr new_height \<Rightarrow>
               if new_height = last_height st then
                 (if scroll_attempts st + 1 > max_scroll_attempts
                  then Break (st\<lparr>scroll_attempts := scroll_attempts st + 1,
                                 passes := Suc (passes st)\<rparr>)
                  else Continue \<lparr>last_height = new_height,
                                 scroll_attempts = scroll_attempts st + 1,
                                 passes = Suc (passes st)\<rparr>)
               else Continue \<lparr>last_height = new_height, scroll_attempts = 0,
                              passes = Suc (passes st)\<rparr>))"

text \<open>
  \<open>while True\<close>: the loop may run forever, so the result is an option, \<open>None\<close> when the
  loop does not end.
\<close>

partial_function (option) scroll_loop ::
  "session \<Rightarrow> element \<Rightarrow> loop_state \<Rightarrow> (exn + loop_state) option" where
  "scroll_loop s scrollable_element st =
     (case scroll_pass s scrollable_element st of
        Raise e \<Rightarrow> Some (Inl e)
      | Break st' \<Rightarrow> Some (Inr st')
      | Continue st' \<Rightarrow> scroll_loop s scrollable_element st')"

subsection \<open>search_and_scrape\<close>

text \<open>
  Lines 75 to 115, the body of the \<open>try\<close>: the exception that reaches the handler or the
  parsed records, with the log records emitted on the way.
\<close>

definition scrape :: "session \<Rightarrow> pystr \<Rightarrow> pystr \<Rightarrow> ((exn + business list) \<times> log) option" where
  "scrape s keyword district =
     (case results_wait s of
        Some e \<Rightarrow> Some (Inl e, [])
      | None \<Rightarrow>
          (case locate_scrollable s of
             (Inl e, lg) \<Rightarrow> Some (Inl e, lg)
           | (Inr scrollable_element, lg) \<Rightarrow>
               (case scroll_height s scrollable_element 0 of
                  Inl e \<Rightarrow> Some (Inl e, lg)
                | Inr h \<Rightarrow>
                    (case scroll_loop s scrollable_element
                            \<lparr>last_height = h, scroll_attempts = 0, passes = 0\<rparr> of
                       None \<Rightarrow> None
                     | Some (Inl e) \<Rightarrow> Some (Inl e, lg)
                     | Some (Inr st) \<Rightarrow>
                         (case page_source s of
                            Inl e \<Rightarrow> Some (Inl e, lg @ [(INFO, ReachedEnd max_scroll_attempts)])
                          | Inr listings \<Rightarrow>
                              (case parse_results listings district keyword of
                                 (businesses, lg') \<Rightarrow>
                                   Some (Inr businesses,
                                         lg @ [(INFO, ReachedEnd max_scroll_attempts)] @ lg')))))))"

text \<open>
  The whole operation, lines 63 to 121: \<open>None\<close> when it does not return, otherwise the
  exception that leaves it (\<open>Inl\<close>) or the returned list (\<open>Inr\<close>), and the log records.
  The parameter \<open>pages\<close> of the source is never read.
\<close>

definition search_and_scrape ::
  "session \<Rightarrow> pystr \<Rightarrow> pystr \<Rightarrow> ((exn + business list) \<times> log) option" where
  "search_and_scrape s keyword district =
     (let businesses = [];
          query = keyword @ lit '' in '' @ district @ lit '', Bangladesh''
      in case quote query of
           Inl e \<Rightarrow> Some (Inl e, [])
         | Inr encoded_query \<Rightarrow>
             (let url = lit ''https://www.google.com/maps/search/'' @ encoded_query
              in case navigate s url of
                   Some e \<Rightarrow> Some (Inl e, [(INFO, NavigatingTo url)])
                 | None \<Rightarrow>
                     (case scrape s keyword district of
                        None \<Rightarrow> None
                      | Some (Inl e, lg) \<Rightarrow>
                          Some (Inr businesses,
                                [(INFO, NavigatingTo url)] @ handle_consent s @ lg @
                                [(ERROR, ScrapeError query e)])
                      | Some (Inr found, lg) \<Rightarrow>
                          Some (Inr found,
                                [(INFO, NavigatingTo url)] @ handle_consent s @ lg))))"

section \<open>The run: main\<close>

text \<open>
  The world of one run: whether the driver starts, the session of the call for each
  keyword and district, the time stamp of the file name, whether the driver quits.
\<close>

record world =
  driver_init :: "exn option"
  sessions :: "pystr \<Rightarrow> pystr \<Rightarrow> session"
  timestamp :: pystr
  driver_quit :: "exn option"

definition search_keywords :: "pystr list" where
  "search_keywords = [lit ''motorcycle'', lit ''motorcycle showroom'', lit ''bike repair'',
                      lit ''motorcycle service'']"

definition districts :: "pystr list" where
  "districts = [lit ''Dhaka'']"

text \<open>Lines 203 to 213, the loop over the keywords of one district.\<close>

fun keyword_loop ::
  "world \<Rightarrow> pystr \<Rightarrow> pystr list \<Rightarrow> business list \<Rightarrow> ((exn + business list) \<times> log) option" where
  "keyword_loop w district [] all_businesses = Some (Inr all_businesses, [])"
| "keyword_loop w district (keyword # rest) all_businesses =
     (case search_and_scrape (sessions w keyword district) keyword district of
        None \<Rightarrow> None
      | Some (Inl e, lg) \<Rightarrow> Some (Inl e, (INFO, SearchingFor keyword) # lg)
      | Some (Inr businesses, lg) \<Rightarrow>
          (case keyword_loop w district rest
                  (if businesses \<noteq> [] then all_businesses @ businesses else all_businesses) of
             None \<Rightarrow> None
           | Some (r, lg') \<Rightarrow>
               Some (r, (INFO, SearchingFor keyword) # lg @
                        [if businesses \<noteq> []
                         then (INFO, FoundResults (length businesses) keyword district)
                         else (WARNING, NoResults keyword district)] @ lg')))"

text \<open>Lines 201 to 213, the loop over the districts.\<close>

fun district_loop ::
  "world \<Rightarrow> pystr list \<Rightarrow> business list \<Rightarrow> ((exn + business list) \<times> log) option" where
  "district_loop w [] all_businesses = Some (Inr all_businesses, [])"
| "district_loop w (district # rest) all_businesses =
     (case keyword_loop w district search_keywords all_businesses of
        None \<Rightarrow> None
      | Some (Inl e, lg) \<Rightarrow> Some (Inl e, (INFO, StartingSearch district) # lg)
      | Some (Inr all_businesses', lg) \<Rightarrow>
          (case district_loop w rest all_businesses' of
             None \<Rightarrow> None
           | Some (r, lg') \<Rightarrow> Some (r, (INFO, StartingSearch district) # lg @ lg')))"

text \<open>
  Lines 215 to 223: what follows the loops inside the \<open>try\<close>, and the handler of line 222.
\<close>

definition finish :: "world \<Rightarrow> files \<Rightarrow> exn + business list \<Rightarrow> files \<times> log" where
  "finish w fs r =
     (case r of
        Inl e \<Rightarrow> (fs, [(CRITICAL, CriticalError e)])
      | Inr all_businesses \<Rightarrow>
          if all_businesses \<noteq> [] then
            (let filename = lit ''bangladesh_motorcycle_businesses_'' @ timestamp w @ lit ''.csv''
             in case save_to_csv fs all_businesses filename of
                  (Some e, fs', lg) \<Rightarrow> (fs', lg @ [(CRITICAL, CriticalError e)])
                | (None, fs', lg) \<Rightarrow> (fs', lg))
          else (fs, [(WARNING, NoBusinessesFound)]))"

text \<open>
  \<open>main\<close>, lines 188 to 227: \<open>None\<close> when it does not return, otherwise the exception
  that leaves it (from the start of the driver, which is outside the \<open>try\<close>, or from
  \<open>close\<close> in the \<open>finally\<close>), the files and the log.
\<close>

definition main :: "world \<Rightarrow> files \<Rightarrow> (exn option \<times> files \<times> log) option" where
  "main w fs =
     (case driver_init w of
        Some e \<Rightarrow> Some (Some e, fs, [(ERROR, FailedDriverInit e)])
      | None \<Rightarrow>
          (case district_loop w districts [] of
             None \<Rightarrow> None
           | Some (r, lg) \<Rightarrow>
               (case finish w fs r of
                  (fs', lg') \<Rightarrow>
                    (case driver_quit w of
                       Some e \<Rightarrow> Some (Some e, fs', lg @ lg')
                     | None \<Rightarrow> Some (None, fs', lg @ lg' @ [(INFO, BrowserClosed)])))))"

section \<open>Vocabulary of the properties\<close>

text \<open>
  The first \<open>n\<close> passes of the scroll loop from a state: \<open>Continue\<close> with the state
  reached when the loop is still running after them, otherwise how it ended.
\<close>

fun run_passes :: "nat \<Rightarrow> session \<Rightarrow> element \<Rightarrow> loop_state \<Rightarrow> outcome" where
  "run_passes 0 s el st = Continue st"
| "run_passes (Suc n) s el st =
     (case scroll_pass s el st of Continue st' \<Rightarrow> run_passes n s el st' | r \<Rightarrow> r)"

text \<open>The pair of a record on which rows are compared.\<close>

definition name_address :: "business \<Rightarrow> pystr option \<times> pystr option" where
  "name_address b = (map_of b (lit ''name''), map_of b (lit ''address''))"

text \<open>
  The cell of a record under a label in the frame of a list of records: the value of the
  key; NaN when the record has no such key and another record of the list has; the empty
  string when no record of the list has it. The row of a record is its cells under the
  expected columns.
\<close>

definition frame_cell :: "business list \<Rightarrow> business \<Rightarrow> pystr \<Rightarrow> cell" where
  "frame_cell businesses b col =
     (case map_of b col of
        Some v \<Rightarrow> Str v
      | None \<Rightarrow> if \<exists>b'\<in>set businesses. col \<in> fst ` set b' then NaN else Str [])"

definition frame_row :: "business list \<Rightarrow> business \<Rightarrow> cell list" where
  "frame_row businesses b = map (frame_cell businesses b) expected_columns"

text \<open>The positions of a list whose key occurs at no earlier position, in increasing order.\<close>

definition first_occurrences :: "('a \<Rightarrow> 'k) \<Rightarrow> 'a list \<Rightarrow> nat list" where
  "first_occurrences key xs =
     filter (\<lambda>i. \<forall>j<i. key (xs ! j) \<noteq> key (xs ! i)) [0..<length xs]"

section \<open>Example inputs\<close>

definition example_text :: pystr where
  "example_text = lit ''123 Main St '' @ [middle_dot] @ lit '' Dhaka''"

definition plain_text :: pystr where
  "plain_text = lit ''123 Main St''"

text \<open>
  A browser in which no call raises (but for the consent button, which never shows), with
  the given heights of the scrolled element and the given page.
\<close>

definition quiet :: "(nat \<Rightarrow> int) \<Rightarrow> page \<Rightarrow> session" where
  "quiet heights listings =
     \<lparr>navigate = (\<lambda>url. None), consent_wait = Some TimeoutException, consent_click = None,
      results_wait = None, locate_results = None, locate_feed = None, locate_body = None,
      scroll_height = (\<lambda>el n. Inr (heights n)), scroll_to_bottom = (\<lambda>el n. None),
      page_source = Inr listings\<rparr>"

text \<open>A page that grows with every scroll, one that never grows, one that grows late.\<close>

definition growing_page :: session where
  "growing_page = quiet int []"

definition still_page :: session where
  "still_page = quiet (\<lambda>n. 800) []"

definition late_growth :: session where
  "late_growth = quiet (\<lambda>n. if n \<le> 10 then 800 else 1600) []"

definition example_businesses :: "business list" where
  "example_businesses =
     [[(lit ''name'', lit ''A''), (lit ''phone'', lit ''1''), (lit ''address'', lit ''X'')],
      [(lit ''name'', lit ''B''), (lit ''address'', lit ''Y'')],
      [(lit ''name'', lit ''A''), (lit ''phone'', lit ''2''), (lit ''address'', lit ''X'')]]"

definition example_page :: page where
  "example_page =
     [\<lparr>name_tag = Some (lit ''Bike Hub''), phone_tag = Some (lit ''01700''),
       address_container = Some example_text\<rparr>,
      \<lparr>name_tag = None, phone_tag = Some (lit ''01800''), address_container = None\<rparr>,
      \<lparr>name_tag = Some (lit ''Moto Fix''), phone_tag = None,
       address_container = Some plain_text\<rparr>]"

definition unnamed_listing :: listing where
  "unnamed_listing = \<lparr>name_tag = None, phone_tag = Some (lit ''01800''), address_container = None\<rparr>"

definition sentinel_listing :: listing where
  "sentinel_listing =
     \<lparr>name_tag = Some (lit ''N/A''), phone_tag = Some (lit ''01800''), address_container = None\<rparr>"

text \<open>
  Two records with the same address, one with an empty name and one without the key.
\<close>

definition mixed_businesses :: "business list" where
  "mixed_businesses =
     [[(lit ''name'', []), (lit ''address'', lit ''X'')],
      [(lit ''address'', lit ''X'')]]"

text \<open>
  A browser that fails to load the search URL, and one whose third scroll raises; the
  query of the examples and its URL.
\<close>

definition offline :: session where
  "offline = (quiet (\<lambda>n. 800) [])\<lparr>navigate := (\<lambda>url. Some WebDriverException)\<rparr>"

definition scroll_failure :: session where
  "scroll_failure =
     (quiet (\<lambda>n. 800) example_page)
       \<lparr>scroll_to_bottom := (\<lambda>el n. if n = 2 then Some WebDriverException else None)\<rparr>"

definition example_query :: pystr where
  "example_query = lit ''bike repair in Dhaka, Bangladesh''"

definition example_url :: pystr where
  "example_url =
     lit ''https://www.google.com/maps/search/bike%20repair%20in%20Dhaka%2C%20Bangladesh''"

text \<open>
  A run in which the first search finds the example page and the browser fails to load
  the URL of the second; the URLs of these two searches.
\<close>

definition aborted_world :: world where
  "aborted_world =
     \<lparr>driver_init = None,
      sessions = (\<lambda>keyword district.
        if keyword = lit ''motorcycle'' then quiet (\<lambda>n. 800) example_page else offline),
      timestamp = lit ''20240101_120000'', driver_quit = None\<rparr>"

definition motorcycle_url :: pystr where
  "motorcycle_url =
     lit ''https://www.google.com/maps/search/motorcycle%20in%20Dhaka%2C%20Bangladesh''"

definition showroom_url :: pystr where
  "showroom_url =
     lit ''https://www.google.com/maps/search/motorcycle%20showroom%20in%20Dhaka%2C%20Bangladesh''"

text \<open>A run in which every search finds an empty page.\<close>

definition empty_world :: world where
  "empty_world =
     \<lparr>driver_init = None, sessions = (\<lambda>keyword district. still_page),
      timestamp = lit ''20240101_120000'', driver_quit = None\<rparr>"

section \<open>Strings and the address\<close>

lemma lit_eq_iff [simp]: "lit a = lit b \<longleftrightarrow> a = b"
  unfolding lit_def by (simp add: inj_on_def)

lemma split_nonempty: "split sep s \<noteq> []"
  by (induction s) (auto split: list.splits)

lemma length_split: "length (split sep s) = Suc (length (filter (\<lambda>c. c = sep) s))"
  by (induction s) (auto simp: split_nonempty split: list.splits)

lemma length_split_gt1: "Suc 0 < length (split sep s) \<longleftrightarrow> sep \<in> set s"
  by (simp add: length_split filter_empty_conv)

lemma split_no_sep: "sep \<notin> set s \<Longrightarrow> split sep s = [s]"
  by (induction s) auto

lemma split_sep_not_single: "split sep (s @ sep # t) \<noteq> [p]"
proof
  assume "split sep (s @ sep # t) = [p]"
  then have "length (split sep (s @ sep # t)) = 1" by simp
  then show False by (simp add: length_split)
qed

text \<open>The last piece is what follows the last separator.\<close>

lemma last_split_append: "sep \<notin> set t \<Longrightarrow> last (split sep (s @ sep # t)) = t"
  by (induction s)
    (auto simp: split_nonempty split_no_sep split_sep_not_single split: list.splits)

text \<open>
  C5. With a separator in the text the address is the last piece, its white space at both
  ends removed as in the example (so what follows the last separator, stripped); without
  a separator it is the text as it is; without a container it is empty. The example
  \<open>123 Main St \<cdot> Dhaka\<close> gives \<open>Dhaka\<close>.
\<close>

theorem extract_address_cases:
  "(\<forall>pre t. txt = pre @ middle_dot # t \<and> middle_dot \<notin> set t \<longrightarrow>
      extract_address (Some txt) = strip t) \<and>
   (middle_dot \<in> set txt \<longrightarrow>
      extract_address (Some txt) = strip (last (split middle_dot txt))) \<and>
   (middle_dot \<notin> set txt \<longrightarrow> extract_address (Some txt) = txt) \<and>
   extract_address None = [] \<and>
   extract_address (Some example_text) = lit ''Dhaka''"
proof -
  have a: "extract_address (Some (pre @ middle_dot # t)) = strip t"
    if "middle_dot \<notin> set t" for pre t
    using that by (simp add: extract_address_def length_split_gt1 last_split_append)
  have b: "extract_address (Some txt) = strip (last (split middle_dot txt))"
    if "middle_dot \<in> set txt"
    using that by (simp add: extract_address_def length_split_gt1)
  have c: "extract_address (Some txt) = txt" if "middle_dot \<notin> set txt"
    using that by (simp add: extract_address_def length_split_gt1)
  have d: "extract_address None = []" by (simp add: extract_address_def)
  have e: "extract_address (Some example_text) = lit ''Dhaka''"
    by (simp add: extract_address_def example_text_def lit_def middle_dot_def strip_def
        isspace_def)
  from a b c d e show ?thesis by blast
qed

theorem extract_address_cases_witness:
  "middle_dot \<in> set example_text \<and> middle_dot \<notin> set (lit '' Dhaka'') \<and>
   extract_address (Some example_text) = strip (lit '' Dhaka'') \<and>
   strip (lit '' Dhaka'') = lit ''Dhaka'' \<and>
   middle_dot \<notin> set plain_text \<and> extract_address (Some plain_text) = plain_text"
proof -
  have 1: "middle_dot \<in> set example_text" by (simp add: example_text_def)
  have 2: "middle_dot \<notin> set (lit '' Dhaka'')" by (simp add: lit_def middle_dot_def)
  have 3: "example_text = lit ''123 Main St '' @ middle_dot # lit '' Dhaka''"
    by (simp add: example_text_def)
  have 4: "middle_dot \<notin> set plain_text" by (simp add: plain_text_def lit_def middle_dot_def)
  have 5: "strip (lit '' Dhaka'') = lit ''Dhaka''" by (simp add: strip_def lit_def isspace_def)
  from extract_address_cases [of example_text] 2 3
  have 6: "extract_address (Some example_text) = strip (lit '' Dhaka'')" by blast
  from extract_address_cases [of plain_text] 4
  have 7: "extract_address (Some plain_text) = plain_text" by blast
  from 1 2 4 5 6 7 show ?thesis by blast
qed

section \<open>The extractor\<close>

lemma parse_listing_None_iff:
  "parse_listing l d k = None \<longleftrightarrow> name_tag l = None \<or> name_tag l = Some sentinel"
  by (simp add: parse_listing_def split: option.splits)

lemma parse_listing_name:
  "parse_listing l d k = Some b \<Longrightarrow> map_of b (lit ''name'') = name_tag l"
  by (auto simp add: parse_listing_def split: option.splits if_splits)

text \<open>Every record of the extractor has the five keys, in the order of the columns.\<close>

lemma parse_listing_keys:
  "parse_listing l d k = Some b \<Longrightarrow>
     map fst b = [lit ''name'', lit ''phone'', lit ''address'', lit ''district'', lit ''category'']"
  by (auto simp add: parse_listing_def split: option.splits if_splits)

lemma parse_loop_eq:
  "parse_loop ls d k acc = acc @ List.map_filter (\<lambda>l. parse_listing l d k) ls"
  by (induction ls arbitrary: acc) (auto split: option.splits)

lemma parse_results_eq:
  "parse_results ls d k =
     (List.map_filter (\<lambda>l. parse_listing l d k) ls, [(INFO, FoundListings (length ls))])"
  by (simp add: parse_results_def parse_loop_eq)

lemma map_filter_drop:
  "f x = None \<Longrightarrow> List.map_filter f (xs @ x # ys) = List.map_filter f (xs @ ys)"
  by (simp add: List.map_filter_def)

lemma map_filter_swap:
  "f x = f y \<Longrightarrow> List.map_filter f (xs @ x # ys) = List.map_filter f (xs @ y # ys)"
  by (simp add: List.map_filter_def)

lemma parsed_names:
  assumes "b \<in> set (fst (parse_results listings d k))"
  shows "\<exists>l\<in>set listings. map_of b (lit ''name'') = name_tag l \<and> name_tag l \<noteq> None \<and>
           name_tag l \<noteq> Some sentinel"
proof -
  from assms obtain l where l: "l \<in> set listings" "parse_listing l d k = Some b"
    by (auto simp: parse_results_eq List.map_filter_def)
  from l(2) have "parse_listing l d k \<noteq> None" by simp
  then have "name_tag l \<noteq> None \<and> name_tag l \<noteq> Some sentinel"
    by (simp add: parse_listing_None_iff)
  with l parse_listing_name [OF l(2)] show ?thesis by blast
qed

text \<open>
  C6. A candidate container without the name element adds no record: the result for a
  page with it is the result for the page without it. And no record of any result has
  the sentinel as its name.
\<close>

theorem missing_name_yields_no_record:
  assumes "name_tag l = None"
  shows "parse_listing l district keyword = None \<and>
         fst (parse_results (before @ l # after) district keyword) =
           fst (parse_results (before @ after) district keyword) \<and>
         (\<forall>b\<in>set (fst (parse_results listings district keyword)).
            map_of b (lit ''name'') \<noteq> Some sentinel)"
proof -
  from assms have none: "parse_listing l district keyword = None"
    by (simp add: parse_listing_None_iff)
  then have "fst (parse_results (before @ l # after) district keyword) =
      fst (parse_results (before @ after) district keyword)"
    by (simp add: parse_results_eq map_filter_drop)
  moreover have "\<forall>b\<in>set (fst (parse_results listings district keyword)).
      map_of b (lit ''name'') \<noteq> Some sentinel"
    using parsed_names by fastforce
  ultimately show ?thesis using none by blast
qed

theorem missing_name_yields_no_record_witness:
  "name_tag unnamed_listing = None \<and>
   example_page = [hd example_page] @ unnamed_listing # [last example_page] \<and>
   fst (parse_results example_page (lit ''Dhaka'') (lit ''bike repair'')) =
     fst (parse_results [hd example_page, last example_page] (lit ''Dhaka'') (lit ''bike repair'')) \<and>
   fst (parse_results example_page (lit ''Dhaka'') (lit ''bike repair'')) =
     [[(lit ''name'', lit ''Bike Hub''), (lit ''phone'', lit ''01700''),
       (lit ''address'', lit ''Dhaka''), (lit ''district'', lit ''Dhaka''),
       (lit ''category'', lit ''bike repair'')],
      [(lit ''name'', lit ''Moto Fix''), (lit ''phone'', []),
       (lit ''address'', lit ''123 Main St''), (lit ''district'', lit ''Dhaka''),
       (lit ''category'', lit ''bike repair'')]]"
proof -
  have 1: "name_tag unnamed_listing = None" by (simp add: unnamed_listing_def)
  have 2: "example_page = [hd example_page] @ unnamed_listing # [last example_page]"
    by (simp add: example_page_def unnamed_listing_def)
  from missing_name_yields_no_record [OF 1, of "lit ''Dhaka''" "lit ''bike repair''"
      "[hd example_page]" "[last example_page]"] 2
  have 3: "fst (parse_results example_page (lit ''Dhaka'') (lit ''bike repair'')) =
     fst (parse_results [hd example_page, last example_page] (lit ''Dhaka'') (lit ''bike repair''))"
    by simp
  have e: "extract_address (Some example_text) = lit ''Dhaka''"
    by (simp add: extract_address_def example_text_def lit_def middle_dot_def strip_def
        isspace_def)
  have p: "extract_address (Some plain_text) = plain_text"
    by (simp add: extract_address_def plain_text_def lit_def middle_dot_def)
  have 4: "fst (parse_results [hd example_page, last example_page] (lit ''Dhaka'')
        (lit ''bike repair'')) =
     [[(lit ''name'', lit ''Bike Hub''), (lit ''phone'', lit ''01700''),
       (lit ''address'', lit ''Dhaka''), (lit ''district'', lit ''Dhaka''),
       (lit ''category'', lit ''bike repair'')],
      [(lit ''name'', lit ''Moto Fix''), (lit ''phone'', []),
       (lit ''address'', lit ''123 Main St''), (lit ''district'', lit ''Dhaka''),
       (lit ''category'', lit ''bike repair'')]]"
    by (simp add: parse_results_def parse_listing_def example_page_def e p sentinel_def)
      (simp add: plain_text_def)
  from 1 2 3 4 show ?thesis by simp
qed

text \<open>
  C9. A container whose name element reads exactly \<open>N/A\<close> is dropped, and the whole
  result (records and log) is the one for the same container without a name element.
\<close>

theorem sentinel_name_discarded:
  assumes "name_tag l = Some sentinel"
  shows "parse_listing l district keyword = None \<and>
         parse_results (before @ l # after) district keyword =
           parse_results (before @ l\<lparr>name_tag := None\<rparr> # after) district keyword \<and>
         fst (parse_results (before @ l # after) district keyword) =
           fst (parse_results (before @ after) district keyword)"
proof -
  from assms have none: "parse_listing l district keyword = None"
    by (simp add: parse_listing_None_iff)
  have "parse_listing (l\<lparr>name_tag := None\<rparr>) district keyword = None"
    by (simp add: parse_listing_None_iff)
  with none have "parse_results (before @ l # after) district keyword =
      parse_results (before @ l\<lparr>name_tag := None\<rparr> # after) district keyword"
    by (simp add: parse_results_eq map_filter_swap)
  moreover from none have "fst (parse_results (before @ l # after) district keyword) =
      fst (parse_results (before @ after) district keyword)"
    by (simp add: parse_results_eq map_filter_drop)
  ultimately show ?thesis using none by blast
qed

theorem sentinel_name_discarded_witness:
  "name_tag sentinel_listing = Some sentinel \<and>
   sentinel_listing\<lparr>name_tag := None\<rparr> = unnamed_listing \<and>
   parse_results [hd example_page, sentinel_listing, last example_page]
       (lit ''Dhaka'') (lit ''bike repair'') =
     parse_results example_page (lit ''Dhaka'') (lit ''bike repair'') \<and>
   parse_listing sentinel_listing (lit ''Dhaka'') (lit ''bike repair'') = None"
proof -
  have 1: "name_tag sentinel_listing = Some sentinel"
    by (simp add: sentinel_listing_def sentinel_def)
  have 2: "sentinel_listing\<lparr>name_tag := None\<rparr> = unnamed_listing"
    by (simp add: sentinel_listing_def unnamed_listing_def)
  have 3: "example_page = [hd example_page] @ unnamed_listing # [last example_page]"
    by (simp add: example_page_def unnamed_listing_def)
  from sentinel_name_discarded [OF 1, of "lit ''Dhaka''" "lit ''bike repair''"
      "[hd example_page]" "[last example_page]"] 2 3
  show ?thesis using 1 by simp
qed

section \<open>The scroll loop\<close>

subsection \<open>Passes and the loop\<close>

lemma scroll_loop_run_Continue:
  "run_passes n s el st = Continue st' \<Longrightarrow> scroll_loop s el st = scroll_loop s el st'"
proof (induction n arbitrary: st)
  case 0
  then show ?case by simp
next
  case (Suc n)
  then show ?case
    by (subst scroll_loop.simps) (auto split: outcome.splits)
qed

lemma scroll_loop_run_Break:
  "run_passes n s el st = Break st' \<Longrightarrow> scroll_loop s el st = Some (Inr st')"
proof (induction n arbitrary: st)
  case 0
  then show ?case by simp
next
  case (Suc n)
  then show ?case
    by (subst scroll_loop.simps) (auto split: outcome.splits)
qed

text \<open>A loop that returns has ended after some number of passes.\<close>

lemma scroll_loop_returns_ends:
  assumes ret: "scroll_loop s el st = Some r"
  shows "\<exists>n. \<forall>st'. run_passes n s el st \<noteq> Continue st'"
proof (rule scroll_loop.raw_induct
    [where P = "\<lambda>s el st r. \<exists>n. \<forall>st'. run_passes n s el st \<noteq> Continue st'", OF _ ret])
  fix f s el st r
  assume IH: "\<And>s el st r. f s el st = Some r \<Longrightarrow>
      \<exists>n. \<forall>st'. run_passes n s el st \<noteq> Continue st'"
    and eq: "(case scroll_pass s el st of Raise e \<Rightarrow> Some (Inl e)
       | Break st' \<Rightarrow> Some (Inr st') | Continue st' \<Rightarrow> f s el st') = Some r"
  show "\<exists>n. \<forall>st'. run_passes n s el st \<noteq> Continue st'"
  proof (cases "scroll_pass s el st")
    case (Raise e)
    then have "\<forall>st'. run_passes (Suc 0) s el st \<noteq> Continue st'" by simp
    then show ?thesis by blast
  next
    case (Break b)
    then have "\<forall>st'. run_passes (Suc 0) s el st \<noteq> Continue st'" by simp
    then show ?thesis by blast
  next
    case (Continue c)
    with eq have "f s el c = Some r" by simp
    then obtain n where "\<forall>st'. run_passes n s el c \<noteq> Continue st'" using IH by blast
    with Continue have "\<forall>st'. run_passes (Suc n) s el st \<noteq> Continue st'" by simp
    then show ?thesis by blast
  qed
qed

subsection \<open>One pass\<close>

lemma scroll_pass_change:
  assumes "scroll_to_bottom s el (passes st) = None"
    and "scroll_height s el (Suc (passes st)) = Inr h"
    and "h \<noteq> last_height st"
  shows "scroll_pass s el st =
           Continue \<lparr>last_height = h, scroll_attempts = 0, passes = Suc (passes st)\<rparr>"
  using assms by (simp add: scroll_pass_def)

lemma scroll_pass_stall:
  assumes "scroll_to_bottom s el (passes st) = None"
    and "scroll_height s el (Suc (passes st)) = Inr (last_height st)"
    and "scroll_attempts st < max_scroll_attempts"
  shows "scroll_pass s el st = Continue \<lparr>last_height = last_height st,
           scroll_attempts = Suc (scroll_attempts st), passes = Suc (passes st)\<rparr>"
  using assms by (simp add: scroll_pass_def)

lemma scroll_pass_break:
  assumes "scroll_to_bottom s el (passes st) = None"
    and "scroll_height s el (Suc (passes st)) = Inr (last_height st)"
    and "max_scroll_attempts \<le> scroll_attempts st"
  shows "scroll_pass s el st = Break (st\<lparr>scroll_attempts := Suc (scroll_attempts st),
           passes := Suc (passes st)\<rparr>)"
  using assms by (simp add: scroll_pass_def)

lemma scroll_pass_Continue:
  assumes "scroll_pass s el st = Continue st'"
  shows "passes st' = Suc (passes st) \<and>
         scroll_height s el (passes st') = Inr (last_height st') \<and>
         scroll_attempts st' \<le> max_scroll_attempts"
  using assms
  by (auto simp: scroll_pass_def split: option.splits sum.splits if_splits)

lemma scroll_pass_Break:
  assumes "scroll_pass s el st = Break st'"
  shows "passes st' = Suc (passes st)"
  using assms
  by (auto simp: scroll_pass_def split: option.splits sum.splits if_splits)

subsection \<open>The stall counter is reset\<close>

lemma run_stalls_then_change:
  assumes "\<forall>i\<le>k. scroll_to_bottom s el (passes st + i) = None"
    and "\<forall>i<k. scroll_height s el (Suc (passes st + i)) = Inr (last_height st)"
    and "scroll_attempts st + k \<le> max_scroll_attempts"
    and "scroll_height s el (Suc (passes st + k)) = Inr h"
    and "h \<noteq> last_height st"
  shows "run_passes (Suc k) s el st =
           Continue \<lparr>last_height = h, scroll_attempts = 0, passes = passes st + Suc k\<rparr>"
  using assms
proof (induction k arbitrary: st)
  case 0
  then show ?case by (simp add: scroll_pass_change)
next
  case (Suc k)
  let ?st' = "\<lparr>last_height = last_height st, scroll_attempts = Suc (scroll_attempts st),
               passes = Suc (passes st)\<rparr>"
  from Suc.prems have "scroll_to_bottom s el (passes st) = None" by force
  moreover from Suc.prems have "scroll_height s el (Suc (passes st)) = Inr (last_height st)"
    by force
  moreover from Suc.prems have "scroll_attempts st < max_scroll_attempts" by simp
  ultimately have pass: "scroll_pass s el st = Continue ?st'" by (rule scroll_pass_stall)
  have a: "\<forall>i\<le>k. scroll_to_bottom s el (passes ?st' + i) = None"
  proof (intro allI impI)
    fix i assume "i \<le> k"
    then have "Suc i \<le> Suc k" by simp
    with Suc.prems(1) have "scroll_to_bottom s el (passes st + Suc i) = None" by blast
    then show "scroll_to_bottom s el (passes ?st' + i) = None" by simp
  qed
  have b: "\<forall>i<k. scroll_height s el (Suc (passes ?st' + i)) = Inr (last_height ?st')"
  proof (intro allI impI)
    fix i assume "i < k"
    then have "Suc i < Suc k" by simp
    with Suc.prems(2) have "scroll_height s el (Suc (passes st + Suc i)) = Inr (last_height st)"
      by blast
    then show "scroll_height s el (Suc (passes ?st' + i)) = Inr (last_height ?st')" by simp
  qed
  have c: "scroll_attempts ?st' + k \<le> max_scroll_attempts" using Suc.prems(3) by simp
  have d: "scroll_height s el (Suc (passes ?st' + k)) = Inr h" using Suc.prems(4) by simp
  have e: "h \<noteq> last_height ?st'" using Suc.prems(5) by simp
  from Suc.IH [OF a b c d e] pass show ?case by simp
qed

text \<open>
  C3. A pass that measures a height different from the last one continues with the stall
  counter at zero. And when \<open>k\<close> passes measure the height unchanged, the counter stays
  within the threshold (from a counter at zero: up to ten passes) and the next pass measures
  another height, the loop is still running after these \<open>k + 1\<close> passes, its counter at
  zero: the loop does from there what it does from the state with the new height and a
  counter of zero.
\<close>

theorem stall_counter_reset:
  "(scroll_to_bottom s el (passes st) = None \<and> scroll_height s el (Suc (passes st)) = Inr h \<and>
    h \<noteq> last_height st \<longrightarrow>
      scroll_pass s el st =
        Continue \<lparr>last_height = h, scroll_attempts = 0, passes = Suc (passes st)\<rparr>) \<and>
   ((\<forall>i\<le>k. scroll_to_bottom s el (passes st + i) = None) \<and>
    (\<forall>i<k. scroll_height s el (Suc (passes st + i)) = Inr (last_height st)) \<and>
    scroll_attempts st + k \<le> max_scroll_attempts \<and>
    scroll_height s el (Suc (passes st + k)) = Inr h \<and> h \<noteq> last_height st \<longrightarrow>
      run_passes (Suc k) s el st =
        Continue \<lparr>last_height = h, scroll_attempts = 0, passes = passes st + Suc k\<rparr> \<and>
      scroll_loop s el st =
        scroll_loop s el \<lparr>last_height = h, scroll_attempts = 0, passes = passes st + Suc k\<rparr>)"
proof (intro conjI impI)
  assume "scroll_to_bottom s el (passes st) = None \<and>
    scroll_height s el (Suc (passes st)) = Inr h \<and> h \<noteq> last_height st"
  then show "scroll_pass s el st =
      Continue \<lparr>last_height = h, scroll_attempts = 0, passes = Suc (passes st)\<rparr>"
    by (simp add: scroll_pass_change)
next
  assume "(\<forall>i\<le>k. scroll_to_bottom s el (passes st + i) = None) \<and>
    (\<forall>i<k. scroll_height s el (Suc (passes st + i)) = Inr (last_height st)) \<and>
    scroll_attempts st + k \<le> max_scroll_attempts \<and>
    scroll_height s el (Suc (passes st + k)) = Inr h \<and> h \<noteq> last_height st"
  then have run: "run_passes (Suc k) s el st =
      Continue \<lparr>last_height = h, scroll_attempts = 0, passes = passes st + Suc k\<rparr>"
    by (intro run_stalls_then_change) simp_all
  then show "run_passes (Suc k) s el st =
      Continue \<lparr>last_height = h, scroll_attempts = 0, passes = passes st + Suc k\<rparr>" .
  from run show "scroll_loop s el st =
      scroll_loop s el \<lparr>last_height = h, scroll_attempts = 0, passes = passes st + Suc k\<rparr>"
    by (rule scroll_loop_run_Continue)
qed

theorem stall_counter_reset_witness:
  "run_passes 11 late_growth Feed \<lparr>last_height = 800, scroll_attempts = 0, passes = 0\<rparr> =
     Continue \<lparr>last_height = 1600, scroll_attempts = 0, passes = 11\<rparr> \<and>
   scroll_pass late_growth Feed \<lparr>last_height = 800, scroll_attempts = 10, passes = 10\<rparr> =
     Continue \<lparr>last_height = 1600, scroll_attempts = 0, passes = 11\<rparr>"
proof -
  let ?start = "\<lparr>last_height = 800, scroll_attempts = 0, passes = 0\<rparr>"
  have a: "\<forall>i\<le>10. scroll_to_bottom late_growth Feed (passes ?start + i) = None"
    by (simp add: late_growth_def quiet_def)
  have b: "\<forall>i<10. scroll_height late_growth Feed (Suc (passes ?start + i)) =
             Inr (last_height ?start)"
    by (simp add: late_growth_def quiet_def)
  have c: "scroll_attempts ?start + 10 \<le> max_scroll_attempts"
    by (simp add: max_scroll_attempts_def)
  have d: "scroll_height late_growth Feed (Suc (passes ?start + 10)) = Inr 1600"
    by (simp add: late_growth_def quiet_def)
  have e: "(1600::int) \<noteq> last_height ?start" by simp
  note run = stall_counter_reset [of late_growth Feed ?start 1600 10, THEN conjunct2,
      rule_format]
  from a b c d e
  have "run_passes (Suc 10) late_growth Feed ?start =
          Continue \<lparr>last_height = 1600, scroll_attempts = 0, passes = passes ?start + Suc 10\<rparr>"
    by (intro run [THEN conjunct1] conjI)
  then have 1: "run_passes 11 late_growth Feed ?start =
     Continue \<lparr>last_height = 1600, scroll_attempts = 0, passes = 11\<rparr>"
    by simp
  let ?st = "\<lparr>last_height = 800, scroll_attempts = 10, passes = 10\<rparr>"
  have f: "scroll_to_bottom late_growth Feed (passes ?st) = None"
    by (simp add: late_growth_def quiet_def)
  have g: "scroll_height late_growth Feed (Suc (passes ?st)) = Inr 1600"
    by (simp add: late_growth_def quiet_def)
  have h: "(1600::int) \<noteq> last_height ?st" by simp
  note pass = stall_counter_reset [of late_growth Feed ?st 1600 0, THEN conjunct1,
      rule_format]
  from f g h
  have "scroll_pass late_growth Feed ?st =
     Continue \<lparr>last_height = 1600, scroll_attempts = 0, passes = Suc (passes ?st)\<rparr>"
    by (intro pass conjI)
  then have 2: "scroll_pass late_growth Feed ?st =
     Continue \<lparr>last_height = 1600, scroll_attempts = 0, passes = 11\<rparr>" by simp
  from 1 2 show ?thesis by blast
qed

subsection \<open>When the loop ends\<close>

text \<open>From a state whose height is never measured differently again, the loop ends.\<close>

lemma stalled_loop_ends:
  assumes "\<forall>n>passes st. scroll_height s el n = Inr (last_height st)"
    and "scroll_attempts st \<le> max_scroll_attempts"
  shows "\<exists>r. scroll_loop s el st = Some r \<and>
           (\<forall>st'. r = Inr st' \<longrightarrow>
              passes st' = passes st + (Suc max_scroll_attempts - scroll_attempts st))"
  using assms
proof (induction k \<equiv> "max_scroll_attempts - scroll_attempts st" arbitrary: st)
  case 0
  then have full: "max_scroll_attempts \<le> scroll_attempts st" by simp
  from "0.prems" have h: "scroll_height s el (Suc (passes st)) = Inr (last_height st)" by simp
  show ?case
  proof (cases "scroll_to_bottom s el (passes st)")
    case None
    from scroll_pass_break [OF None h full] "0.prems"(2) full show ?thesis
      by (subst scroll_loop.simps) simp
  next
    case (Some e)
    then have "scroll_pass s el st = Raise e" by (simp add: scroll_pass_def)
    then show ?thesis by (subst scroll_loop.simps) simp
  qed
next
  case (Suc k)
  then have less: "scroll_attempts st < max_scroll_attempts" by simp
  from Suc.prems have h: "scroll_height s el (Suc (passes st)) = Inr (last_height st)" by simp
  show ?case
  proof (cases "scroll_to_bottom s el (passes st)")
    case None
    let ?st' = "\<lparr>last_height = last_height st, scroll_attempts = Suc (scroll_attempts st),
                 passes = Suc (passes st)\<rparr>"
    have pass: "scroll_pass s el st = Continue ?st'"
      using None h less by (rule scroll_pass_stall)
    have k: "k = max_scroll_attempts - scroll_attempts ?st'" using Suc.hyps(2) by simp
    have a: "\<forall>n>passes ?st'. scroll_height s el n = Inr (last_height ?st')"
      using Suc.prems(1) by simp
    have b: "scroll_attempts ?st' \<le> max_scroll_attempts" using less by simp
    from Suc.hyps(1) [OF k a b] obtain r where
      r: "scroll_loop s el ?st' = Some r"
         "\<forall>st'. r = Inr st' \<longrightarrow>
            passes st' = passes ?st' + (Suc max_scroll_attempts - scroll_attempts ?st')"
      by blast
    have "scroll_loop s el st = Some r" using pass r(1) by (subst scroll_loop.simps) simp
    moreover have "\<forall>st'. r = Inr st' \<longrightarrow>
        passes st' = passes st + (Suc max_scroll_attempts - scroll_attempts st)"
    proof (intro allI impI)
      fix st' assume "r = Inr st'"
      with r(2) have "passes st' =
          passes ?st' + (Suc max_scroll_attempts - scroll_attempts ?st')" by blast
      with less show "passes st' = passes st + (Suc max_scroll_attempts - scroll_attempts st)"
        by simp
    qed
    ultimately show ?thesis by blast
  next
    case (Some e)
    then have "scroll_pass s el st = Raise e" by (simp add: scroll_pass_def)
    then show ?thesis by (subst scroll_loop.simps) simp
  qed
qed

text \<open>
  When the measured height is the same from measurement \<open>m\<close> on, the loop ends, from any
  state it can be in, within eleven passes after the later of \<open>m\<close> and now.
\<close>

lemma settled_loop_ends:
  assumes settle: "\<forall>n\<ge>m. scroll_height s el n = Inr h"
    and inv: "scroll_height s el (passes st) = Inr (last_height st)"
      "scroll_attempts st \<le> max_scroll_attempts"
  shows "\<exists>r. scroll_loop s el st = Some r \<and>
           (\<forall>st'. r = Inr st' \<longrightarrow> passes st' \<le> max m (passes st) + Suc max_scroll_attempts)"
  using inv
proof (induction d \<equiv> "m - passes st" arbitrary: st)
  case 0
  then have ge: "m \<le> passes st" by simp
  with settle "0.prems"(1) have "h = last_height st" by simp
  with settle ge have "\<forall>n>passes st. scroll_height s el n = Inr (last_height st)" by simp
  from stalled_loop_ends [OF this "0.prems"(2)] obtain r where
    r: "scroll_loop s el st = Some r"
       "\<forall>st'. r = Inr st' \<longrightarrow>
          passes st' = passes st + (Suc max_scroll_attempts - scroll_attempts st)"
    by blast
  from r(2) ge have "\<forall>st'. r = Inr st' \<longrightarrow>
      passes st' \<le> max m (passes st) + Suc max_scroll_attempts" by simp
  with r(1) show ?case by blast
next
  case (Suc d)
  then have lt: "passes st < m" by simp
  show ?case
  proof (cases "scroll_pass s el st")
    case (Raise e)
    then show ?thesis by (subst scroll_loop.simps) simp
  next
    case (Break b)
    from scroll_pass_Break [OF Break] lt
    have "passes b \<le> max m (passes st) + Suc max_scroll_attempts" by simp
    with Break show ?thesis by (subst scroll_loop.simps) simp
  next
    case (Continue c)
    note c = scroll_pass_Continue [OF Continue]
    from c Suc.hyps(2) have d: "d = m - passes c" by simp
    from Suc.hyps(1) [OF d] c obtain r where
      r: "scroll_loop s el c = Some r"
         "\<forall>st'. r = Inr st' \<longrightarrow> passes st' \<le> max m (passes c) + Suc max_scroll_attempts"
      by blast
    from c lt have "max m (passes c) = max m (passes st)" by simp
    with r(2) have "\<forall>st'. r = Inr st' \<longrightarrow>
        passes st' \<le> max m (passes st) + Suc max_scroll_attempts" by simp
    moreover have "scroll_loop s el st = Some r"
      using Continue r(1) by (subst scroll_loop.simps) simp
    ultimately show ?thesis by blast
  qed
qed

lemma settled_loop_ends_from_start:
  assumes "\<forall>n\<ge>m. scroll_height s el n = Inr h" and "scroll_height s el 0 = Inr h0"
  shows "\<exists>r. scroll_loop s el \<lparr>last_height = h0, scroll_attempts = 0, passes = 0\<rparr> = Some r \<and>
           (\<forall>st'. r = Inr st' \<longrightarrow> passes st' \<le> m + 11)"
proof -
  let ?start = "\<lparr>last_height = h0, scroll_attempts = 0, passes = 0\<rparr>"
  have "scroll_height s el (passes ?start) = Inr (last_height ?start)"
    using assms(2) by simp
  moreover have "scroll_attempts ?start \<le> max_scroll_attempts" by simp
  ultimately obtain r where "scroll_loop s el ?start = Some r"
    "\<forall>st'. r = Inr st' \<longrightarrow> passes st' \<le> max m (passes ?start) + Suc max_scroll_attempts"
    using settled_loop_ends [OF assms(1)] by blast
  then show ?thesis by (auto simp: max_scroll_attempts_def)
qed

lemma still_loop_result:
  assumes heights: "\<forall>n. scroll_height s el n = Inr h"
    and scrolls: "\<forall>n. scroll_to_bottom s el n = None"
  shows "scroll_loop s el \<lparr>last_height = h, scroll_attempts = 0, passes = 0\<rparr> =
           Some (Inr \<lparr>last_height = h, scroll_attempts = 11, passes = 11\<rparr>)"
proof -
  have "run_passes 11 s el \<lparr>last_height = h, scroll_attempts = 0, passes = 0\<rparr> =
           Break \<lparr>last_height = h, scroll_attempts = 11, passes = 11\<rparr>"
    using assms by (simp add: eval_nat_numeral scroll_pass_def max_scroll_attempts_def)
  then show ?thesis by (rule scroll_loop_run_Break)
qed

text \<open>
  On a page that grows with every scroll the counter is reset in every pass and the loop
  does not end.
\<close>

lemma growing_page_continues:
  assumes "last_height st = int (passes st)"
  shows "\<exists>st'. run_passes n growing_page el st = Continue st'"
  using assms
proof (induction n arbitrary: st)
  case 0
  then show ?case by simp
next
  case (Suc n)
  let ?st' = "\<lparr>last_height = int (Suc (passes st)), scroll_attempts = 0,
               passes = Suc (passes st)\<rparr>"
  have "scroll_pass growing_page el st = Continue ?st'"
    using Suc.prems by (simp add: scroll_pass_def growing_page_def quiet_def)
  moreover have "\<exists>st'. run_passes n growing_page el ?st' = Continue st'"
    by (rule Suc.IH) simp
  ultimately show ?case by simp
qed

lemma growing_page_loop_never_ends:
  assumes "last_height st = int (passes st)"
  shows "scroll_loop growing_page el st = None"
proof (cases "scroll_loop growing_page el st")
  case None
  then show ?thesis .
next
  case (Some r)
  then obtain n where "\<forall>st'. run_passes n growing_page el st \<noteq> Continue st'"
    using scroll_loop_returns_ends by blast
  moreover have "\<exists>st'. run_passes n growing_page el st = Continue st'"
    using assms by (rule growing_page_continues)
  ultimately show ?thesis by blast
qed

section \<open>The loader\<close>

lemma scroll_loop_run_Raise:
  "run_passes n s el st = Raise e \<Longrightarrow> scroll_loop s el st = Some (Inl e)"
proof (induction n arbitrary: st)
  case 0
  then show ?case by simp
next
  case (Suc n)
  then show ?case
    by (subst scroll_loop.simps) (auto split: outcome.splits)
qed

text \<open>The operation once the URL is built and loaded: what the \<open>try\<close> makes of its body.\<close>

lemma search_and_scrape_after_navigation:
  assumes "quote (keyword @ lit '' in '' @ district @ lit '', Bangladesh'') = Inr encoded_query"
    and "navigate s (lit ''https://www.google.com/maps/search/'' @ encoded_query) = None"
  shows "search_and_scrape s keyword district =
     (case scrape s keyword district of
        None \<Rightarrow> None
      | Some (Inl e, lg) \<Rightarrow>
          Some (Inr [],
            [(INFO, NavigatingTo (lit ''https://www.google.com/maps/search/'' @ encoded_query))] @
            handle_consent s @ lg @
            [(ERROR, ScrapeError (keyword @ lit '' in '' @ district @ lit '', Bangladesh'') e)])
      | Some (Inr found, lg) \<Rightarrow>
          Some (Inr found,
            [(INFO, NavigatingTo (lit ''https://www.google.com/maps/search/'' @ encoded_query))] @
            handle_consent s @ lg))"
  using assms by (simp add: search_and_scrape_def Let_def)

subsection \<open>The example searches\<close>

lemma quote_example_query:
  "quote (lit ''bike repair'' @ lit '' in '' @ lit ''Dhaka'' @ lit '', Bangladesh'') =
     Inr (lit ''bike%20repair%20in%20Dhaka%2C%20Bangladesh'')"
  by (simp add: lit_def utf8_def quote_byte_def always_safe_def hex_digit_def)

lemma quote_motorcycle:
  "quote (lit ''motorcycle'' @ lit '' in '' @ lit ''Dhaka'' @ lit '', Bangladesh'') =
     Inr (lit ''motorcycle%20in%20Dhaka%2C%20Bangladesh'')"
  by (simp add: lit_def utf8_def quote_byte_def always_safe_def hex_digit_def)

lemma quote_showroom:
  "quote (lit ''motorcycle showroom'' @ lit '' in '' @ lit ''Dhaka'' @ lit '', Bangladesh'') =
     Inr (lit ''motorcycle%20showroom%20in%20Dhaka%2C%20Bangladesh'')"
  by (simp add: lit_def utf8_def quote_byte_def always_safe_def hex_digit_def)

lemma example_urls:
  "lit ''https://www.google.com/maps/search/'' @
     lit ''bike%20repair%20in%20Dhaka%2C%20Bangladesh'' = example_url"
  "lit ''https://www.google.com/maps/search/'' @
     lit ''motorcycle%20in%20Dhaka%2C%20Bangladesh'' = motorcycle_url"
  "lit ''https://www.google.com/maps/search/'' @
     lit ''motorcycle%20showroom%20in%20Dhaka%2C%20Bangladesh'' = showroom_url"
  "lit ''bike repair'' @ lit '' in '' @ lit ''Dhaka'' @ lit '', Bangladesh'' = example_query"
  by (simp_all add: example_url_def motorcycle_url_def showroom_url_def example_query_def
      lit_def)

lemma search_offline:
  assumes "quote (keyword @ lit '' in '' @ district @ lit '', Bangladesh'') = Inr encoded_query"
  shows "search_and_scrape offline keyword district =
     Some (Inl WebDriverException,
           [(INFO, NavigatingTo (lit ''https://www.google.com/maps/search/'' @ encoded_query))])"
  using assms by (simp add: search_and_scrape_def Let_def offline_def quiet_def)

lemma scrape_scroll_failure:
  "scrape scroll_failure keyword district = Some (Inl WebDriverException, [])"
proof -
  have "run_passes 3 scroll_failure ResultsPane
      \<lparr>last_height = 800, scroll_attempts = 0, passes = 0\<rparr> = Raise WebDriverException"
    by (simp add: eval_nat_numeral scroll_pass_def scroll_failure_def quiet_def
        max_scroll_attempts_def)
  then have "scroll_loop scroll_failure ResultsPane
      \<lparr>last_height = 800, scroll_attempts = 0, passes = 0\<rparr> = Some (Inl WebDriverException)"
    by (rule scroll_loop_run_Raise)
  then show ?thesis
    by (simp add: scrape_def locate_scrollable_def scroll_failure_def quiet_def)
qed

lemma scrape_example_page:
  "scrape (quiet (\<lambda>n. 800) example_page) keyword district =
     Some (Inr (fst (parse_results example_page district keyword)),
           [(INFO, ReachedEnd 10), (INFO, FoundListings 3)])"
proof -
  have "scroll_loop (quiet (\<lambda>n. 800) example_page) ResultsPane
      \<lparr>last_height = 800, scroll_attempts = 0, passes = 0\<rparr> =
      Some (Inr \<lparr>last_height = 800, scroll_attempts = 11, passes = 11\<rparr>)"
    by (rule still_loop_result) (simp_all add: quiet_def)
  moreover have "length example_page = 3" by (simp add: example_page_def)
  ultimately show ?thesis
    by (simp add: scrape_def locate_scrollable_def quiet_def parse_results_def
        max_scroll_attempts_def)
qed

lemma example_page_records:
  "length (fst (parse_results example_page district keyword)) = 2"
  by (simp add: parse_results_def parse_listing_def example_page_def sentinel_def)

lemma scrape_growing_page: "scrape growing_page keyword district = None"
proof -
  have "scroll_loop growing_page ResultsPane
      \<lparr>last_height = 0, scroll_attempts = 0, passes = 0\<rparr> = None"
    by (rule growing_page_loop_never_ends) simp
  then show ?thesis
    by (simp add: scrape_def locate_scrollable_def growing_page_def quiet_def)
qed

subsection \<open>A page that keeps growing\<close>

text \<open>
  C2. The loop has no bound over all sequences of heights: on a results pane whose height
  is \<open>n\<close> at measurement \<open>n\<close> the height changes in every pass, line 110 resets the
  counter, the \<open>break\<close> is never reached, and neither the loop nor the operation
  returns. On a pane whose height never changes the loop ends by the \<open>break\<close> in the
  eleventh pass, the counter at eleven.
\<close>

theorem scroll_loop_unbounded_on_growing_page:
  "scroll_height growing_page ResultsPane 0 = Inr 0 \<and>
   scroll_loop growing_page ResultsPane \<lparr>last_height = 0, scroll_attempts = 0, passes = 0\<rparr> =
     None \<and>
   search_and_scrape growing_page (lit ''bike repair'') (lit ''Dhaka'') = None \<and>
   scroll_loop still_page ResultsPane \<lparr>last_height = 800, scroll_attempts = 0, passes = 0\<rparr> =
     Some (Inr \<lparr>last_height = 800, scroll_attempts = 11, passes = 11\<rparr>)"
proof (intro conjI)
  show "scroll_height growing_page ResultsPane 0 = Inr 0"
    by (simp add: growing_page_def quiet_def)
  show "scroll_loop growing_page ResultsPane
      \<lparr>last_height = 0, scroll_attempts = 0, passes = 0\<rparr> = None"
    by (rule growing_page_loop_never_ends) simp
  have "navigate growing_page (lit ''https://www.google.com/maps/search/'' @
      lit ''bike%20repair%20in%20Dhaka%2C%20Bangladesh'') = None"
    by (simp add: growing_page_def quiet_def)
  from search_and_scrape_after_navigation [OF quote_example_query this]
  show "search_and_scrape growing_page (lit ''bike repair'') (lit ''Dhaka'') = None"
    by (simp add: scrape_growing_page)
  show "scroll_loop still_page ResultsPane
      \<lparr>last_height = 800, scroll_attempts = 0, passes = 0\<rparr> =
     Some (Inr \<lparr>last_height = 800, scroll_attempts = 11, passes = 11\<rparr>)"
    by (rule still_loop_result) (simp_all add: still_page_def quiet_def)
qed

subsection \<open>An exception of the navigation\<close>

text \<open>
  C1. The load of the URL (line 71) is the one call of the driver in the operation that no
  handler covers. When it raises, the exception leaves \<open>search_and_scrape\<close> with nothing
  logged but the navigation, and no list is returned. The same exception from a scroll is
  caught: the empty list is returned and the error is logged with the query string. In
  \<open>main\<close> the exception of the second search ends the run at the handler of line 222:
  the two records of the first search are not written to any file.
\<close>

theorem navigation_exception_escapes:
  "search_and_scrape offline (lit ''bike repair'') (lit ''Dhaka'') =
     Some (Inl WebDriverException, [(INFO, NavigatingTo example_url)]) \<and>
   search_and_scrape scroll_failure (lit ''bike repair'') (lit ''Dhaka'') =
     Some (Inr [], [(INFO, NavigatingTo example_url), (INFO, ConsentNotFound),
                    (ERROR, ScrapeError example_query WebDriverException)]) \<and>
   main aborted_world Map.empty =
     Some (None, Map.empty,
       [(INFO, StartingSearch (lit ''Dhaka'')),
        (INFO, SearchingFor (lit ''motorcycle'')),
        (INFO, NavigatingTo motorcycle_url),
        (INFO, ConsentNotFound),
        (INFO, ReachedEnd 10),
        (INFO, FoundListings 3),
        (INFO, FoundResults 2 (lit ''motorcycle'') (lit ''Dhaka'')),
        (INFO, SearchingFor (lit ''motorcycle showroom'')),
        (INFO, NavigatingTo showroom_url),
        (CRITICAL, CriticalError WebDriverException),
        (INFO, BrowserClosed)])"
proof (intro conjI)
  show "search_and_scrape offline (lit ''bike repair'') (lit ''Dhaka'') =
     Some (Inl WebDriverException, [(INFO, NavigatingTo example_url)])"
    using search_offline [OF quote_example_query] by (simp only: example_urls)
next
  have "navigate scroll_failure (lit ''https://www.google.com/maps/search/'' @
      lit ''bike%20repair%20in%20Dhaka%2C%20Bangladesh'') = None"
    by (simp add: scroll_failure_def quiet_def)
  from search_and_scrape_after_navigation [OF quote_example_query this]
  have "search_and_scrape scroll_failure (lit ''bike repair'') (lit ''Dhaka'') =
      Some (Inr [],
        [(INFO, NavigatingTo (lit ''https://www.google.com/maps/search/'' @
            lit ''bike%20repair%20in%20Dhaka%2C%20Bangladesh''))] @
        handle_consent scroll_failure @ [] @
        [(ERROR, ScrapeError
            (lit ''bike repair'' @ lit '' in '' @ lit ''Dhaka'' @ lit '', Bangladesh'')
            WebDriverException)])"
    by (simp add: scrape_scroll_failure)
  moreover have "handle_consent scroll_failure = [(INFO, ConsentNotFound)]"
    by (simp add: handle_consent_def scroll_failure_def quiet_def)
  ultimately show "search_and_scrape scroll_failure (lit ''bike repair'') (lit ''Dhaka'') =
     Some (Inr [], [(INFO, NavigatingTo example_url), (INFO, ConsentNotFound),
                    (ERROR, ScrapeError example_query WebDriverException)])"
    by (simp only: example_urls) simp
next
  let ?found = "fst (parse_results example_page (lit ''Dhaka'') (lit ''motorcycle''))"
  let ?good = "quiet (\<lambda>n. 800) example_page"
  have len: "length ?found = 2" by (rule example_page_records)
  then have ne: "?found \<noteq> []" by auto
  have "navigate ?good (lit ''https://www.google.com/maps/search/'' @
      lit ''motorcycle%20in%20Dhaka%2C%20Bangladesh'') = None"
    by (simp add: quiet_def)
  from search_and_scrape_after_navigation [OF quote_motorcycle this]
  have "search_and_scrape ?good (lit ''motorcycle'') (lit ''Dhaka'') =
      Some (Inr ?found,
        [(INFO, NavigatingTo (lit ''https://www.google.com/maps/search/'' @
            lit ''motorcycle%20in%20Dhaka%2C%20Bangladesh''))] @
        handle_consent ?good @ [(INFO, ReachedEnd 10), (INFO, FoundListings 3)])"
    by (simp add: scrape_example_page)
  moreover have "handle_consent ?good = [(INFO, ConsentNotFound)]"
    by (simp add: handle_consent_def quiet_def)
  ultimately have first: "search_and_scrape ?good (lit ''motorcycle'') (lit ''Dhaka'') =
      Some (Inr ?found,
        [(INFO, NavigatingTo motorcycle_url), (INFO, ConsentNotFound),
         (INFO, ReachedEnd 10), (INFO, FoundListings 3)])"
    by (simp only: example_urls) simp
  have second: "search_and_scrape offline (lit ''motorcycle showroom'') (lit ''Dhaka'') =
      Some (Inl WebDriverException, [(INFO, NavigatingTo showroom_url)])"
    using search_offline [OF quote_showroom] by (simp only: example_urls)
  have s1: "sessions aborted_world (lit ''motorcycle'') (lit ''Dhaka'') = ?good"
    by (simp add: aborted_world_def)
  have s2: "sessions aborted_world (lit ''motorcycle showroom'') (lit ''Dhaka'') = offline"
    by (simp add: aborted_world_def)
  have "keyword_loop aborted_world (lit ''Dhaka'') search_keywords [] =
      Some (Inl WebDriverException,
        [(INFO, SearchingFor (lit ''motorcycle'')),
         (INFO, NavigatingTo motorcycle_url), (INFO, ConsentNotFound),
         (INFO, ReachedEnd 10), (INFO, FoundListings 3),
         (INFO, FoundResults 2 (lit ''motorcycle'') (lit ''Dhaka'')),
         (INFO, SearchingFor (lit ''motorcycle showroom'')),
         (INFO, NavigatingTo showroom_url)])"
    by (simp add: search_keywords_def s1 s2 first second ne len)
  then have "district_loop aborted_world districts [] =
      Some (Inl WebDriverException,
        [(INFO, StartingSearch (lit ''Dhaka'')),
         (INFO, SearchingFor (lit ''motorcycle'')),
         (INFO, NavigatingTo motorcycle_url), (INFO, ConsentNotFound),
         (INFO, ReachedEnd 10), (INFO, FoundListings 3),
         (INFO, FoundResults 2 (lit ''motorcycle'') (lit ''Dhaka'')),
         (INFO, SearchingFor (lit ''motorcycle showroom'')),
         (INFO, NavigatingTo showroom_url)])"
    by (simp add: districts_def)
  moreover have "driver_init aborted_world = None" "driver_quit aborted_world = None"
    by (simp_all add: aborted_world_def)
  ultimately show "main aborted_world Map.empty =
     Some (None, Map.empty,
       [(INFO, StartingSearch (lit ''Dhaka'')),
        (INFO, SearchingFor (lit ''motorcycle'')),
        (INFO, NavigatingTo motorcycle_url),
        (INFO, ConsentNotFound),
        (INFO, ReachedEnd 10),
        (INFO, FoundListings 3),
        (INFO, FoundResults 2 (lit ''motorcycle'') (lit ''Dhaka'')),
        (INFO, SearchingFor (lit ''motorcycle showroom'')),
        (INFO, NavigatingTo showroom_url),
        (CRITICAL, CriticalError WebDriverException),
        (INFO, BrowserClosed)])"
    by (simp add: main_def finish_def)
qed

section \<open>Persistence\<close>

subsection \<open>Keeping first occurrences\<close>

lemma keep_first_indices:
  "keep_first key seen xs =
     map (nth xs)
       (filter (\<lambda>i. key (xs ! i) \<notin> set seen \<and> (\<forall>j<i. key (xs ! j) \<noteq> key (xs ! i)))
          [0..<length xs])"
proof (induction xs arbitrary: seen)
  case Nil
  then show ?case by simp
next
  case (Cons x xs)
  have "[0..<Suc (length xs)] = 0 # [Suc 0..<Suc (length xs)]"
    by (rule upt_conv_Cons) simp
  then have upt: "[0..<length (x # xs)] = 0 # map Suc [0..<length xs]"
    by (simp only: map_Suc_upt length_Cons)
  show ?case
  proof (cases "key x \<in> set seen")
    case True
    have "filter (\<lambda>i. key ((x # xs) ! i) \<notin> set seen \<and>
              (\<forall>j<i. key ((x # xs) ! j) \<noteq> key ((x # xs) ! i))) (map Suc [0..<length xs]) =
          map Suc (filter (\<lambda>i. key (xs ! i) \<notin> set seen \<and> (\<forall>j<i. key (xs ! j) \<noteq> key (xs ! i)))
              [0..<length xs])"
      unfolding filter_map using True
      by (intro arg_cong [where f = "map Suc"] filter_cong refl) (auto simp: All_less_Suc2)
    with True Cons.IH [of seen] show ?thesis unfolding upt by (simp add: comp_def)
  next
    case False
    have "filter (\<lambda>i. key ((x # xs) ! i) \<notin> set seen \<and>
              (\<forall>j<i. key ((x # xs) ! j) \<noteq> key ((x # xs) ! i))) (map Suc [0..<length xs]) =
          map Suc (filter (\<lambda>i. key (xs ! i) \<notin> set (key x # seen) \<and>
              (\<forall>j<i. key (xs ! j) \<noteq> key (xs ! i))) [0..<length xs])"
      unfolding filter_map
      by (intro arg_cong [where f = "map Suc"] filter_cong refl) (auto simp: All_less_Suc2)
    with False Cons.IH [of "key x # seen"] show ?thesis unfolding upt by (simp add: comp_def)
  qed
qed

lemma keep_first_first_occurrences:
  "keep_first key [] xs = map (nth xs) (first_occurrences key xs)"
  by (simp add: keep_first_indices first_occurrences_def)

lemma keep_first_map:
  "keep_first key seen (map f xs) = map f (keep_first (\<lambda>x. key (f x)) seen xs)"
  by (induction xs arbitrary: seen) auto

lemma set_keep_first_id: "set (keep_first (\<lambda>k. k) seen xs) = set xs - set seen"
  by (induction xs arbitrary: seen) auto

lemma first_occurrences_cong:
  assumes "\<And>i j. i < length xs \<Longrightarrow> j < i \<Longrightarrow>
    key (xs ! j) = key (xs ! i) \<longleftrightarrow> key' (xs ! j) = key' (xs ! i)"
  shows "first_occurrences key xs = first_occurrences key' xs"
  unfolding first_occurrences_def
  by (rule filter_cong) (auto simp: assms)

lemma first_occurrences_sorted: "sorted_wrt (<) (first_occurrences key xs)"
  by (simp add: first_occurrences_def sorted_wrt_filter)

lemma first_occurrences_iff:
  "i \<in> set (first_occurrences key xs) \<longleftrightarrow>
     i < length xs \<and> (\<forall>j<i. key (xs ! j) \<noteq> key (xs ! i))"
  by (auto simp: first_occurrences_def)

lemma first_occurrence_exists:
  assumes "k < length xs"
  shows "\<exists>i\<in>set (first_occurrences key xs). key (xs ! i) = key (xs ! k)"
proof -
  define i where "i = (LEAST i. key (xs ! i) = key (xs ! k))"
  have eq: "key (xs ! i) = key (xs ! k)"
    unfolding i_def by (rule LeastI [where k = k]) simp
  have "i \<le> k" unfolding i_def by (rule Least_le) simp
  with assms have len: "i < length xs" by simp
  have "key (xs ! j) \<noteq> key (xs ! i)" if "j < i" for j
  proof
    assume "key (xs ! j) = key (xs ! i)"
    with eq have "key (xs ! j) = key (xs ! k)" by simp
    then have "i \<le> j" unfolding i_def by (rule Least_le)
    with that show False by simp
  qed
  with len have "i \<in> set (first_occurrences key xs)" by (simp add: first_occurrences_iff)
  with eq show ?thesis by blast
qed

lemma first_occurrences_distinct_keys:
  "distinct (map (\<lambda>i. key (xs ! i)) (first_occurrences key xs))"
proof -
  have "distinct (first_occurrences key xs)"
    by (simp add: first_occurrences_def)
  moreover have "inj_on (\<lambda>i. key (xs ! i)) (set (first_occurrences key xs))"
  proof (rule inj_onI)
    fix i i'
    assume i: "i \<in> set (first_occurrences key xs)" and i': "i' \<in> set (first_occurrences key xs)"
      and eq: "key (xs ! i) = key (xs ! i')"
    from i eq have "\<not> i' < i" by (auto simp: first_occurrences_iff)
    moreover from i' eq have "\<not> i < i'" by (auto simp: first_occurrences_iff)
    ultimately show "i = i'" by simp
  qed
  ultimately show ?thesis by (simp add: distinct_map)
qed

subsection \<open>The frame that is written\<close>

lemma cell_at_map: "c \<in> set cols \<Longrightarrow> cell_at cols (map f cols) c = f c"
  by (simp add: cell_at_def map_of_zip_map)

lemma fill_columns_rows:
  assumes "rows df = map (\<lambda>b. map (G b) (columns df)) bs"
  shows "rows (fill_columns cs df) =
           map (\<lambda>b. map (\<lambda>c. if c \<in> set (columns df) then G b c else Str [])
                        (columns (fill_columns cs df))) bs \<and>
         set (columns (fill_columns cs df)) = set (columns df) \<union> set cs"
  using assms
proof (induction cs arbitrary: df G)
  case Nil
  then show ?case by simp
next
  case (Cons col cs)
  show ?case
  proof (cases "col \<in> set (columns df)")
    case True
    with Cons.IH [OF Cons.prems] show ?thesis by auto
  next
    case False
    let ?df = "new_column df col (Str [])"
    let ?G = "\<lambda>b c. if c \<in> set (columns df) then G b c else Str []"
    have "rows ?df = map (\<lambda>b. map (?G b) (columns ?df)) bs"
      using Cons.prems False by (simp add: new_column_def)
    from Cons.IH [OF this]
    have rows: "rows (fill_columns cs ?df) =
           map (\<lambda>b. map (\<lambda>c. if c \<in> set (columns ?df) then ?G b c else Str [])
                        (columns (fill_columns cs ?df))) bs"
      and cols: "set (columns (fill_columns cs ?df)) = set (columns ?df) \<union> set cs"
      by blast+
    have same: "(\<lambda>c. if c \<in> set (columns ?df) then ?G b c else Str []) = ?G b" for b
      by (auto simp: new_column_def)
    from rows have "rows (fill_columns cs ?df) =
        map (\<lambda>b. map (?G b) (columns (fill_columns cs ?df))) bs"
      unfolding same .
    moreover from cols have "set (columns (fill_columns cs ?df)) =
        set (columns df) \<union> set (col # cs)"
      by (auto simp: new_column_def)
    ultimately show ?thesis using False by simp
  qed
qed

lemma frame_cell_eq:
  assumes "b \<in> set businesses"
  shows "(if c \<in> set (columns (DataFrame businesses))
          then (case map_of b c of Some v \<Rightarrow> Str v | None \<Rightarrow> NaN) else Str []) =
         frame_cell businesses b c"
proof -
  have cols: "set (columns (DataFrame businesses)) = (\<Union>b'\<in>set businesses. fst ` set b')"
    by (simp add: DataFrame_def Let_def set_keep_first_id)
  show ?thesis
  proof (cases "map_of b c")
    case None
    then show ?thesis by (auto simp: frame_cell_def cols)
  next
    case (Some v)
    then have "(c, v) \<in> set b" by (rule map_of_SomeD)
    then have "c \<in> fst ` set b" by force
    with assms have "c \<in> set (columns (DataFrame businesses))" unfolding cols by blast
    with Some show ?thesis by (simp add: frame_cell_def)
  qed
qed

text \<open>Lines 171 to 177: the rows of the records under the expected columns.\<close>

lemma normalised_frame:
  "getitem (fill_columns expected_columns (DataFrame businesses)) expected_columns =
     Inr \<lparr>columns = expected_columns, rows = map (frame_row businesses) businesses\<rparr>"
proof -
  let ?raw = "DataFrame businesses"
  let ?df = "fill_columns expected_columns ?raw"
  let ?G = "\<lambda>b c. case map_of b c of Some v \<Rightarrow> Str v | None \<Rightarrow> NaN"
  let ?H = "\<lambda>b c. if c \<in> set (columns ?raw) then ?G b c else Str []"
  have "rows ?raw = map (\<lambda>b. map (?G b) (columns ?raw)) businesses"
    by (simp add: DataFrame_def Let_def)
  from fill_columns_rows [OF this, of expected_columns]
  have rows: "rows ?df = map (\<lambda>b. map (?H b) (columns ?df)) businesses"
    and cols: "set (columns ?df) = set (columns ?raw) \<union> set expected_columns"
    by blast+
  from cols have none: "filter (\<lambda>c. c \<notin> set (columns ?df)) expected_columns = []"
    by (simp add: filter_empty_conv)
  have "map (\<lambda>row. map (cell_at (columns ?df) row) expected_columns) (rows ?df) =
        map (frame_row businesses) businesses"
    unfolding rows map_map comp_def frame_row_def
  proof (intro map_cong refl)
    fix b c assume "b \<in> set businesses" "c \<in> set expected_columns"
    with cols have "c \<in> set (columns ?df)" by blast
    then have "cell_at (columns ?df) (map (?H b) (columns ?df)) c = ?H b c"
      by (rule cell_at_map)
    also have "\<dots> = frame_cell businesses b c"
      using \<open>b \<in> set businesses\<close> by (rule frame_cell_eq)
    finally show "cell_at (columns ?df) (map (?H b) (columns ?df)) c =
      frame_cell businesses b c" .
  qed
  with none show ?thesis by (simp add: getitem_def)
qed

text \<open>Two records of the list have the same cell under a label iff they agree on the key.\<close>

lemma frame_cell_inj:
  assumes "b \<in> set businesses" "b' \<in> set businesses"
  shows "frame_cell businesses b c = frame_cell businesses b' c \<longleftrightarrow> map_of b c = map_of b' c"
proof -
  have key: "\<exists>x\<in>set businesses. c \<in> fst ` set x" if "map_of x c = Some v" "x \<in> set businesses"
    for x v
  proof -
    from that(1) have "(c, v) \<in> set x" by (rule map_of_SomeD)
    then have "c \<in> fst ` set x" by force
    with that(2) show ?thesis by blast
  qed
  show ?thesis
  proof (cases "map_of b c")
    case None
    note b = this
    show ?thesis
    proof (cases "map_of b' c")
      case None
      with b show ?thesis by (simp add: frame_cell_def)
    next
      case (Some v)
      with b key [OF Some assms(2)] show ?thesis by (simp add: frame_cell_def)
    qed
  next
    case (Some v)
    note b = this
    show ?thesis
    proof (cases "map_of b' c")
      case None
      with b key [OF b assms(1)] show ?thesis by (simp add: frame_cell_def)
    next
      case (Some v')
      with b show ?thesis by (simp add: frame_cell_def)
    qed
  qed
qed

lemma frame_key_iff:
  assumes "b \<in> set businesses" "b' \<in> set businesses"
  shows "(frame_cell businesses b (lit ''name''), frame_cell businesses b (lit ''address'')) =
         (frame_cell businesses b' (lit ''name''), frame_cell businesses b' (lit ''address'')) \<longleftrightarrow>
         name_address b = name_address b'"
  using assms by (simp add: frame_cell_inj name_address_def)

lemma name_address_in_expected:
  "lit ''name'' \<in> set expected_columns" "lit ''address'' \<in> set expected_columns"
  by (simp_all add: expected_columns_def)

lemma frame_row_cell:
  "c \<in> set expected_columns \<Longrightarrow>
     cell_at expected_columns (frame_row businesses b) c = frame_cell businesses b c"
  by (simp add: frame_row_def cell_at_map)

text \<open>Line 178.\<close>

lemma drop_duplicates_frame:
  "drop_duplicates \<lparr>columns = expected_columns, rows = map (frame_row businesses) businesses\<rparr>
       [lit ''name'', lit ''address''] =
     Inr \<lparr>columns = expected_columns,
          rows = map (\<lambda>i. frame_row businesses (businesses ! i))
                     (first_occurrences name_address businesses)\<rparr>"
proof -
  let ?key = "\<lambda>b. [frame_cell businesses b (lit ''name''),
                    frame_cell businesses b (lit ''address'')]"
  have "first_occurrences ?key businesses = first_occurrences name_address businesses"
  proof (rule first_occurrences_cong)
    fix i j assume "i < length businesses" "j < i"
    then have "businesses ! i \<in> set businesses" "businesses ! j \<in> set businesses" by simp_all
    then show "?key (businesses ! j) = ?key (businesses ! i) \<longleftrightarrow>
        name_address (businesses ! j) = name_address (businesses ! i)"
      by (simp add: frame_cell_inj name_address_def)
  qed
  then have "keep_first (\<lambda>row. map (cell_at expected_columns row) [lit ''name'', lit ''address''])
          [] (map (frame_row businesses) businesses) =
        map (\<lambda>i. frame_row businesses (businesses ! i))
          (first_occurrences name_address businesses)"
    by (simp add: keep_first_map frame_row_cell name_address_in_expected
        keep_first_first_occurrences comp_def)
  then show ?thesis by (simp add: drop_duplicates_def name_address_in_expected)
qed

text \<open>
  What \<open>save_to_csv\<close> does with a list that is not empty: it does not raise, and writes
  the rows of the records at the first occurrences of their pairs.
\<close>

lemma save_to_csv_written:
  assumes "businesses \<noteq> []"
  shows "save_to_csv fs businesses filename =
    (None,
     fs(filename \<mapsto> \<lparr>columns = expected_columns,
                       rows = map (\<lambda>i. frame_row businesses (businesses ! i))
                                  (first_occurrences name_address businesses)\<rparr>),
     [(INFO, Saved (length (first_occurrences name_address businesses)) filename)])"
  using assms by (simp add: save_to_csv_def normalised_frame drop_duplicates_frame)

lemma example_saved:
  "save_to_csv Map.empty example_businesses (lit ''out.csv'') =
    (None,
     [lit ''out.csv'' \<mapsto> \<lparr>columns = expected_columns,
        rows = [[Str (lit ''A''), Str (lit ''1''), Str (lit ''X''), Str [], Str []],
                [Str (lit ''B''), NaN, Str (lit ''Y''), Str [], Str []]]\<rparr>],
     [(INFO, Saved 2 (lit ''out.csv''))])"
  by (simp add: save_to_csv_def example_businesses_def DataFrame_def getitem_def
      drop_duplicates_def new_column_def cell_at_def expected_columns_def)

subsection \<open>The claims about the written file\<close>

lemma first_occurrences_zero: "xs \<noteq> [] \<Longrightarrow> 0 \<in> set (first_occurrences key xs)"
  by (simp add: first_occurrences_iff)

text \<open>The field written for a record that has the key is the value of the key.\<close>

lemma written_field:
  assumes "map_of b c \<noteq> None"
  shows "map_of b c = Some (to_csv_field (frame_cell businesses b c))"
  using assms by (auto simp: frame_cell_def to_csv_field_def)

text \<open>
  C4, for records that have both keys \<open>name\<close> and \<open>address\<close> (as every record of the
  extractor has). For a list of such records that is not empty, \<open>save_to_csv\<close> writes a
  file in which no two rows have the same fields under \<open>name\<close> and \<open>address\<close>; every
  row is the row of a record of the list that no earlier record shares its pair with, and
  its two fields are the values of that record; and the pair of every record of the list
  is the pair of fields of some row.
\<close>

theorem save_to_csv_unique_first:
  assumes "businesses \<noteq> []"
    and "\<forall>b\<in>set businesses. map_of b (lit ''name'') \<noteq> None \<and>
                             map_of b (lit ''address'') \<noteq> None"
  shows "\<exists>out lg. save_to_csv fs businesses filename = (None, fs(filename \<mapsto> out), lg) \<and>
     distinct (map (\<lambda>row. (to_csv_field (cell_at (columns out) row (lit ''name'')),
                            to_csv_field (cell_at (columns out) row (lit ''address''))))
                 (rows out)) \<and>
     (\<forall>row\<in>set (rows out). \<exists>i<length businesses.
        row = frame_row businesses (businesses ! i) \<and>
        map_of (businesses ! i) (lit ''name'') =
          Some (to_csv_field (cell_at (columns out) row (lit ''name''))) \<and>
        map_of (businesses ! i) (lit ''address'') =
          Some (to_csv_field (cell_at (columns out) row (lit ''address''))) \<and>
        (\<forall>j<i. name_address (businesses ! j) \<noteq> name_address (businesses ! i))) \<and>
     (\<forall>b\<in>set businesses. \<exists>row\<in>set (rows out).
        map_of b (lit ''name'') =
          Some (to_csv_field (cell_at (columns out) row (lit ''name''))) \<and>
        map_of b (lit ''address'') =
          Some (to_csv_field (cell_at (columns out) row (lit ''address''))))"
proof -
  let ?firsts = "first_occurrences name_address businesses"
  let ?out = "\<lparr>columns = expected_columns,
               rows = map (\<lambda>i. frame_row businesses (businesses ! i)) ?firsts\<rparr>"
  let ?name = "\<lambda>row. to_csv_field (cell_at (columns ?out) row (lit ''name''))"
  let ?address = "\<lambda>row. to_csv_field (cell_at (columns ?out) row (lit ''address''))"
  have written: "save_to_csv fs businesses filename =
      (None, fs(filename \<mapsto> ?out), [(INFO, Saved (length ?firsts) filename)])"
    using assms(1) by (rule save_to_csv_written)
  have member: "businesses ! i \<in> set businesses" if "i \<in> set ?firsts" for i
    using that by (simp add: first_occurrences_iff)
  have fields: "map_of b (lit ''name'') = Some (?name (frame_row businesses b)) \<and>
      map_of b (lit ''address'') = Some (?address (frame_row businesses b))"
    if "b \<in> set businesses" for b
  proof -
    from that assms(2)
    have n: "map_of b (lit ''name'') \<noteq> None" and a: "map_of b (lit ''address'') \<noteq> None"
      by blast+
    have "map_of b (lit ''name'') =
        Some (to_csv_field (frame_cell businesses b (lit ''name'')))"
      using n by (rule written_field)
    moreover have "map_of b (lit ''address'') =
        Some (to_csv_field (frame_cell businesses b (lit ''address'')))"
      using a by (rule written_field)
    ultimately have "map_of b (lit ''name'') =
        Some (to_csv_field (frame_cell businesses b (lit ''name''))) \<and>
      map_of b (lit ''address'') =
        Some (to_csv_field (frame_cell businesses b (lit ''address'')))"
      by (rule conjI)
    then show ?thesis by (simp add: frame_row_cell name_address_in_expected)
  qed
  have "inj_on (\<lambda>i. (?name (frame_row businesses (businesses ! i)),
      ?address (frame_row businesses (businesses ! i)))) (set ?firsts)"
  proof (rule inj_onI)
    fix i i'
    assume i: "i \<in> set ?firsts" and i': "i' \<in> set ?firsts"
      and eq: "(?name (frame_row businesses (businesses ! i)),
                ?address (frame_row businesses (businesses ! i))) =
               (?name (frame_row businesses (businesses ! i')),
                ?address (frame_row businesses (businesses ! i')))"
    from fields [OF member [OF i]] fields [OF member [OF i']] eq
    have same: "name_address (businesses ! i) = name_address (businesses ! i')"
      by (simp add: name_address_def)
    from i same have "\<not> i' < i" by (auto simp: first_occurrences_iff)
    moreover from i' same have "\<not> i < i'" by (auto simp: first_occurrences_iff)
    ultimately show "i = i'" by simp
  qed
  moreover have "distinct ?firsts" by (simp add: first_occurrences_def)
  ultimately have "distinct (map (\<lambda>i. (?name (frame_row businesses (businesses ! i)),
      ?address (frame_row businesses (businesses ! i)))) ?firsts)"
    by (simp add: distinct_map)
  then have a: "distinct (map (\<lambda>row. (?name row, ?address row)) (rows ?out))"
    by (simp add: comp_def)
  have b: "\<forall>row\<in>set (rows ?out). \<exists>i<length businesses.
        row = frame_row businesses (businesses ! i) \<and>
        map_of (businesses ! i) (lit ''name'') = Some (?name row) \<and>
        map_of (businesses ! i) (lit ''address'') = Some (?address row) \<and>
        (\<forall>j<i. name_address (businesses ! j) \<noteq> name_address (businesses ! i))"
  proof
    fix row assume "row \<in> set (rows ?out)"
    then obtain i where i: "i \<in> set ?firsts" "row = frame_row businesses (businesses ! i)"
      by auto
    from i(1) have "i < length businesses"
      "\<forall>j<i. name_address (businesses ! j) \<noteq> name_address (businesses ! i)"
      by (simp_all add: first_occurrences_iff)
    with fields [OF member [OF i(1)]] i(2)
    show "\<exists>i<length businesses.
        row = frame_row businesses (businesses ! i) \<and>
        map_of (businesses ! i) (lit ''name'') = Some (?name row) \<and>
        map_of (businesses ! i) (lit ''address'') = Some (?address row) \<and>
        (\<forall>j<i. name_address (businesses ! j) \<noteq> name_address (businesses ! i))"
      by blast
  qed
  have c: "\<forall>b\<in>set businesses. \<exists>row\<in>set (rows ?out).
        map_of b (lit ''name'') = Some (?name row) \<and>
        map_of b (lit ''address'') = Some (?address row)"
  proof
    fix b assume "b \<in> set businesses"
    then obtain k where k: "k < length businesses" "b = businesses ! k"
      by (auto simp: in_set_conv_nth)
    from first_occurrence_exists [OF k(1), of name_address] obtain i where
      i: "i \<in> set ?firsts" "name_address (businesses ! i) = name_address b"
      unfolding k(2) by blast
    from i(2) fields [OF member [OF i(1)]]
    have "map_of b (lit ''name'') = Some (?name (frame_row businesses (businesses ! i))) \<and>
        map_of b (lit ''address'') = Some (?address (frame_row businesses (businesses ! i)))"
      by (simp add: name_address_def)
    moreover from i(1) have "frame_row businesses (businesses ! i) \<in> set (rows ?out)"
      by simp
    ultimately show "\<exists>row\<in>set (rows ?out).
        map_of b (lit ''name'') = Some (?name row) \<and>
        map_of b (lit ''address'') = Some (?address row)"
      by blast
  qed
  show ?thesis
  proof (intro exI conjI)
    show "save_to_csv fs businesses filename =
      (None, fs(filename \<mapsto> ?out), [(INFO, Saved (length ?firsts) filename)])"
      by (rule written)
  qed (rule a b c)+
qed

theorem save_to_csv_unique_first_witness:
  "example_businesses \<noteq> [] \<and>
   list_all (\<lambda>b. map_of b (lit ''name'') \<noteq> None \<and> map_of b (lit ''address'') \<noteq> None)
     example_businesses \<and>
   (\<exists>out lg. save_to_csv Map.empty example_businesses (lit ''out.csv'') =
       (None, [lit ''out.csv'' \<mapsto> out], lg) \<and>
     distinct (map (\<lambda>row. (to_csv_field (cell_at (columns out) row (lit ''name'')),
                            to_csv_field (cell_at (columns out) row (lit ''address''))))
                 (rows out)) \<and>
     rows out = [[Str (lit ''A''), Str (lit ''1''), Str (lit ''X''), Str [], Str []],
                 [Str (lit ''B''), NaN, Str (lit ''Y''), Str [], Str []]])"
proof -
  have ne: "example_businesses \<noteq> []" by (simp add: example_businesses_def)
  have keys: "\<forall>b\<in>set example_businesses.
      map_of b (lit ''name'') \<noteq> None \<and> map_of b (lit ''address'') \<noteq> None"
    by (simp add: example_businesses_def)
  from save_to_csv_unique_first [OF ne keys, of Map.empty "lit ''out.csv''"]
  obtain out lg where
    out: "save_to_csv Map.empty example_businesses (lit ''out.csv'') =
       (None, [lit ''out.csv'' \<mapsto> out], lg)"
    and distinct: "distinct (map (\<lambda>row.
        (to_csv_field (cell_at (columns out) row (lit ''name'')),
         to_csv_field (cell_at (columns out) row (lit ''address'')))) (rows out))"
    by (elim exE conjE)
  from out have "[lit ''out.csv'' \<mapsto> out] (lit ''out.csv'') =
      [lit ''out.csv'' \<mapsto> \<lparr>columns = expected_columns,
        rows = [[Str (lit ''A''), Str (lit ''1''), Str (lit ''X''), Str [], Str []],
                [Str (lit ''B''), NaN, Str (lit ''Y''), Str [], Str []]]\<rparr>] (lit ''out.csv'')"
    unfolding example_saved by simp
  then have rows: "rows out = [[Str (lit ''A''), Str (lit ''1''), Str (lit ''X''), Str [], Str []],
                 [Str (lit ''B''), NaN, Str (lit ''Y''), Str [], Str []]]"
    by simp
  from keys have "list_all (\<lambda>b. map_of b (lit ''name'') \<noteq> None \<and>
      map_of b (lit ''address'') \<noteq> None) example_businesses"
    by (simp add: list_all_iff)
  with ne out distinct rows show ?thesis by (intro conjI exI)
qed

text \<open>
  C4 as it is stated, for every list of records: a record with an empty name and a record
  without the key \<open>name\<close>, both with the address \<open>X\<close>, are different rows of the frame
  (an empty string and NaN), both are kept, and both are written with the same fields.
\<close>

theorem save_to_csv_missing_key_counterexample:
  "save_to_csv Map.empty mixed_businesses (lit ''out.csv'') =
     (None,
      [lit ''out.csv'' \<mapsto> \<lparr>columns = expected_columns,
         rows = [[Str [], Str [], Str (lit ''X''), Str [], Str []],
                 [NaN, Str [], Str (lit ''X''), Str [], Str []]]\<rparr>],
      [(INFO, Saved 2 (lit ''out.csv''))]) \<and>
   map to_csv_field [Str [], Str [], Str (lit ''X''), Str [], Str []] =
     map to_csv_field [NaN, Str [], Str (lit ''X''), Str [], Str []]"
  by (simp add: save_to_csv_def mixed_businesses_def DataFrame_def getitem_def
      drop_duplicates_def new_column_def cell_at_def expected_columns_def to_csv_field_def)

text \<open>
  C7. For a list of records that is not empty, the columns of the written frame are
  \<open>name\<close>, \<open>phone\<close>, \<open>address\<close>, \<open>district\<close>, \<open>category\<close> in this order; there is a
  row, and every row has five cells; every row is, column by column, a record of the
  list: the value of the key where the record has it, the empty string where no record of
  the list has the key, NaN where only other records have it. So under a column whose key
  no record has, every cell is the empty string.
\<close>

theorem save_to_csv_columns:
  assumes "businesses \<noteq> []"
  shows "\<exists>out lg. save_to_csv fs businesses filename = (None, fs(filename \<mapsto> out), lg) \<and>
     columns out =
       [lit ''name'', lit ''phone'', lit ''address'', lit ''district'', lit ''category''] \<and>
     rows out \<noteq> [] \<and>
     (\<forall>row\<in>set (rows out). length row = 5) \<and>
     (\<forall>row\<in>set (rows out). \<exists>b\<in>set businesses. \<forall>col\<in>set (columns out).
        cell_at (columns out) row col =
          (case map_of b col of
             Some v \<Rightarrow> Str v
           | None \<Rightarrow> if \<forall>b'\<in>set businesses. map_of b' col = None then Str [] else NaN)) \<and>
     (\<forall>col\<in>set (columns out). (\<forall>b\<in>set businesses. map_of b col = None) \<longrightarrow>
        (\<forall>row\<in>set (rows out). cell_at (columns out) row col = Str []))"
proof -
  let ?firsts = "first_occurrences name_address businesses"
  let ?out = "\<lparr>columns = expected_columns,
               rows = map (\<lambda>i. frame_row businesses (businesses ! i)) ?firsts\<rparr>"
  have written: "save_to_csv fs businesses filename =
      (None, fs(filename \<mapsto> ?out), [(INFO, Saved (length ?firsts) filename)])"
    using assms by (rule save_to_csv_written)
  have a: "columns ?out =
      [lit ''name'', lit ''phone'', lit ''address'', lit ''district'', lit ''category'']"
    by (simp add: expected_columns_def)
  from assms have "0 \<in> set ?firsts" by (rule first_occurrences_zero)
  then have "?firsts \<noteq> []" by auto
  then have r: "rows ?out \<noteq> []" by simp
  have b: "\<forall>row\<in>set (rows ?out). length row = 5"
    by (auto simp: frame_row_def expected_columns_def)
  have cell: "frame_cell businesses x col =
      (case map_of x col of
         Some v \<Rightarrow> Str v
       | None \<Rightarrow> if \<forall>b'\<in>set businesses. map_of b' col = None then Str [] else NaN)"
    for x col
  proof (cases "map_of x col")
    case None
    have "(\<exists>b'\<in>set businesses. col \<in> fst ` set b') \<longleftrightarrow>
        \<not> (\<forall>b'\<in>set businesses. map_of b' col = None)"
      by (simp add: map_of_eq_None_iff)
    with None show ?thesis by (simp add: frame_cell_def del: map_of_eq_None_iff)
  next
    case (Some v)
    then show ?thesis by (simp add: frame_cell_def)
  qed
  have c: "\<forall>row\<in>set (rows ?out). \<exists>b\<in>set businesses. \<forall>col\<in>set (columns ?out).
        cell_at (columns ?out) row col =
          (case map_of b col of
             Some v \<Rightarrow> Str v
           | None \<Rightarrow> if \<forall>b'\<in>set businesses. map_of b' col = None then Str [] else NaN)"
  proof
    fix row assume "row \<in> set (rows ?out)"
    then obtain i where i: "i \<in> set ?firsts" "row = frame_row businesses (businesses ! i)"
      by auto
    from i(1) have mem: "businesses ! i \<in> set businesses" by (simp add: first_occurrences_iff)
    have "\<forall>col\<in>set (columns ?out). cell_at (columns ?out) row col =
          (case map_of (businesses ! i) col of
             Some v \<Rightarrow> Str v
           | None \<Rightarrow> if \<forall>b'\<in>set businesses. map_of b' col = None then Str [] else NaN)"
      unfolding i(2) by (simp add: frame_row_cell cell)
    with mem show "\<exists>b\<in>set businesses. \<forall>col\<in>set (columns ?out).
        cell_at (columns ?out) row col =
          (case map_of b col of
             Some v \<Rightarrow> Str v
           | None \<Rightarrow> if \<forall>b'\<in>set businesses. map_of b' col = None then Str [] else NaN)"
      by (rule rev_bexI)
  qed
  have d: "\<forall>col\<in>set (columns ?out). (\<forall>b\<in>set businesses. map_of b col = None) \<longrightarrow>
        (\<forall>row\<in>set (rows ?out). cell_at (columns ?out) row col = Str [])"
  proof (intro ballI impI)
    fix col row
    assume col: "col \<in> set (columns ?out)"
      and absent: "\<forall>b\<in>set businesses. map_of b col = None"
      and row: "row \<in> set (rows ?out)"
    from row obtain i where i: "i \<in> set ?firsts" "row = frame_row businesses (businesses ! i)"
      by auto
    from i(1) have mem: "businesses ! i \<in> set businesses" by (simp add: first_occurrences_iff)
    from absent mem have "frame_cell businesses (businesses ! i) col = Str []"
      by (simp add: cell)
    with col i(2) show "cell_at (columns ?out) row col = Str []"
      by (simp add: frame_row_cell)
  qed
  show ?thesis
  proof (intro exI conjI)
    show "save_to_csv fs businesses filename =
      (None, fs(filename \<mapsto> ?out), [(INFO, Saved (length ?firsts) filename)])"
      by (rule written)
  qed (rule a r b c d)+
qed

theorem save_to_csv_columns_witness:
  "example_businesses \<noteq> [] \<and>
   list_all (\<lambda>b. map_of b (lit ''district'') = None) example_businesses \<and>
   (\<exists>out lg. save_to_csv Map.empty example_businesses (lit ''out.csv'') =
       (None, [lit ''out.csv'' \<mapsto> out], lg) \<and>
     columns out =
       [lit ''name'', lit ''phone'', lit ''address'', lit ''district'', lit ''category''] \<and>
     rows out = [[Str (lit ''A''), Str (lit ''1''), Str (lit ''X''), Str [], Str []],
                 [Str (lit ''B''), NaN, Str (lit ''Y''), Str [], Str []]] \<and>
     list_all (\<lambda>row. length row = 5 \<and>
        cell_at (columns out) row (lit ''district'') = Str []) (rows out))"
proof -
  have ne: "example_businesses \<noteq> []" by (simp add: example_businesses_def)
  have absent: "\<forall>b\<in>set example_businesses. map_of b (lit ''district'') = None"
    by (simp add: example_businesses_def)
  from save_to_csv_columns [OF ne, of Map.empty "lit ''out.csv''"]
  obtain out lg where
    out: "save_to_csv Map.empty example_businesses (lit ''out.csv'') =
       (None, [lit ''out.csv'' \<mapsto> out], lg)"
    and cols: "columns out =
       [lit ''name'', lit ''phone'', lit ''address'', lit ''district'', lit ''category'']"
    and len: "\<forall>row\<in>set (rows out). length row = 5"
    and fill: "\<forall>col\<in>set (columns out).
        (\<forall>b\<in>set example_businesses. map_of b col = None) \<longrightarrow>
        (\<forall>row\<in>set (rows out). cell_at (columns out) row col = Str [])"
    by (elim exE conjE)
  from cols have "lit ''district'' \<in> set (columns out)" by simp
  with fill absent
  have "\<forall>row\<in>set (rows out). cell_at (columns out) row (lit ''district'') = Str []"
    by blast
  with len have filled: "list_all (\<lambda>row. length row = 5 \<and>
      cell_at (columns out) row (lit ''district'') = Str []) (rows out)"
    by (simp add: list_all_iff)
  from out have "[lit ''out.csv'' \<mapsto> out] (lit ''out.csv'') =
      [lit ''out.csv'' \<mapsto> \<lparr>columns = expected_columns,
        rows = [[Str (lit ''A''), Str (lit ''1''), Str (lit ''X''), Str [], Str []],
                [Str (lit ''B''), NaN, Str (lit ''Y''), Str [], Str []]]\<rparr>] (lit ''out.csv'')"
    unfolding example_saved by simp
  then have rows: "rows out = [[Str (lit ''A''), Str (lit ''1''), Str (lit ''X''), Str [], Str []],
                 [Str (lit ''B''), NaN, Str (lit ''Y''), Str [], Str []]]"
    by simp
  from absent have "list_all (\<lambda>b. map_of b (lit ''district'') = None) example_businesses"
    by (simp add: list_all_iff)
  with ne out cols rows filled show ?thesis by (intro conjI exI)
qed

text \<open>
  C10. The rows of the written frame are the rows of the records at the positions where a
  pair occurs for the first time, in increasing order of these positions.
\<close>

theorem save_to_csv_keeps_order:
  assumes "businesses \<noteq> []"
  shows "\<exists>out lg positions.
     save_to_csv fs businesses filename = (None, fs(filename \<mapsto> out), lg) \<and>
     rows out = map (\<lambda>i. frame_row businesses (businesses ! i)) positions \<and>
     sorted_wrt (<) positions \<and>
     (\<forall>i. i \<in> set positions \<longleftrightarrow>
        i < length businesses \<and>
        (\<forall>j<i. name_address (businesses ! j) \<noteq> name_address (businesses ! i)))"
proof -
  let ?firsts = "first_occurrences name_address businesses"
  let ?out = "\<lparr>columns = expected_columns,
               rows = map (\<lambda>i. frame_row businesses (businesses ! i)) ?firsts\<rparr>"
  show ?thesis
  proof (intro exI conjI)
    show "save_to_csv fs businesses filename =
        (None, fs(filename \<mapsto> ?out), [(INFO, Saved (length ?firsts) filename)])"
      using assms by (rule save_to_csv_written)
    show "rows ?out = map (\<lambda>i. frame_row businesses (businesses ! i)) ?firsts"
      by simp
    show "sorted_wrt (<) ?firsts" by (rule first_occurrences_sorted)
    show "\<forall>i. i \<in> set ?firsts \<longleftrightarrow>
          i < length businesses \<and>
          (\<forall>j<i. name_address (businesses ! j) \<noteq> name_address (businesses ! i))"
      by (simp add: first_occurrences_iff)
  qed
qed

theorem save_to_csv_keeps_order_witness:
  "example_businesses \<noteq> [] \<and>
   (\<exists>out lg positions.
     save_to_csv Map.empty example_businesses (lit ''out.csv'') =
       (None, [lit ''out.csv'' \<mapsto> out], lg) \<and>
     rows out = map (\<lambda>i. frame_row example_businesses (example_businesses ! i)) positions \<and>
     sorted_wrt (<) positions \<and>
     0 \<in> set positions \<and> Suc 0 \<in> set positions \<and> Suc (Suc 0) \<notin> set positions)"
proof -
  have ne: "example_businesses \<noteq> []" by (simp add: example_businesses_def)
  from save_to_csv_keeps_order [OF ne, of Map.empty "lit ''out.csv''"]
  obtain out lg positions where
    out: "save_to_csv Map.empty example_businesses (lit ''out.csv'') =
       (None, [lit ''out.csv'' \<mapsto> out], lg)"
    and rows: "rows out =
       map (\<lambda>i. frame_row example_businesses (example_businesses ! i)) positions"
    and sorted: "sorted_wrt (<) positions"
    and pos: "\<forall>i. i \<in> set positions \<longleftrightarrow>
        i < length example_businesses \<and>
        (\<forall>j<i. name_address (example_businesses ! j) \<noteq> name_address (example_businesses ! i))"
    by (elim exE conjE)
  have len: "length example_businesses = 3" by (simp add: example_businesses_def)
  have na0: "name_address (example_businesses ! 0) = (Some (lit ''A''), Some (lit ''X''))"
    by (simp add: example_businesses_def name_address_def)
  have na1: "name_address (example_businesses ! Suc 0) = (Some (lit ''B''), Some (lit ''Y''))"
    by (simp add: example_businesses_def name_address_def)
  have na2: "name_address (example_businesses ! Suc (Suc 0)) =
      (Some (lit ''A''), Some (lit ''X''))"
    by (simp add: example_businesses_def name_address_def)
  have p0: "0 \<in> set positions"
    unfolding pos [rule_format, of 0] len by simp
  have "\<forall>j<Suc 0. name_address (example_businesses ! j) \<noteq>
      name_address (example_businesses ! Suc 0)"
    by (simp add: na0 na1)
  then have p1: "Suc 0 \<in> set positions"
    unfolding pos [rule_format, of "Suc 0"] len by simp
  have "0 < Suc (Suc 0) \<and> name_address (example_businesses ! 0) =
      name_address (example_businesses ! Suc (Suc 0))"
    by (simp add: na0 na2)
  then have "\<not> (\<forall>j<Suc (Suc 0). name_address (example_businesses ! j) \<noteq>
      name_address (example_businesses ! Suc (Suc 0)))"
    by blast
  then have p2: "Suc (Suc 0) \<notin> set positions"
    unfolding pos [rule_format, of "Suc (Suc 0)"] by (rule contrapos_nn) (rule conjunct2)
  from ne out rows sorted p0 p1 p2 show ?thesis by (intro conjI exI)
qed

section \<open>The run\<close>

lemma quote_ascii: "\<forall>c\<in>set q. c < 0x80 \<Longrightarrow> \<exists>encoded. quote q = Inr encoded"
proof (induction q)
  case Nil
  then show ?case by simp
next
  case (Cons c q)
  then obtain encoded where "quote q = Inr encoded" by auto
  moreover from Cons.prems have "utf8 c = Inr [c]" by (simp add: utf8_def)
  ultimately show ?case by simp
qed

lemma scrape_still_page:
  "scrape still_page keyword district =
     Some (Inr [], [(INFO, ReachedEnd max_scroll_attempts), (INFO, FoundListings 0)])"
proof -
  have "scroll_loop still_page ResultsPane \<lparr>last_height = 800, scroll_attempts = 0, passes = 0\<rparr> =
      Some (Inr \<lparr>last_height = 800, scroll_attempts = 11, passes = 11\<rparr>)"
    by (rule still_loop_result) (simp_all add: still_page_def quiet_def)
  then show ?thesis
    by (simp add: scrape_def locate_scrollable_def still_page_def quiet_def parse_results_def)
qed

lemma search_still_page:
  assumes "\<forall>c\<in>set keyword. c < 0x80" "\<forall>c\<in>set district. c < 0x80"
  shows "\<exists>lg. search_and_scrape still_page keyword district = Some (Inr [], lg)"
proof -
  have "\<forall>c\<in>set (keyword @ lit '' in '' @ district @ lit '', Bangladesh''). c < 0x80"
    using assms by (auto simp: lit_def)
  then obtain encoded where
    enc: "quote (keyword @ lit '' in '' @ district @ lit '', Bangladesh'') = Inr encoded"
    using quote_ascii by blast
  have nav: "navigate still_page (lit ''https://www.google.com/maps/search/'' @ encoded) = None"
    by (simp add: still_page_def quiet_def)
  show ?thesis
    unfolding search_and_scrape_after_navigation [OF enc nav] scrape_still_page by simp
qed

lemma keyword_loop_nothing_found:
  assumes "\<forall>keyword\<in>set ks. \<exists>lg.
    search_and_scrape (sessions w keyword district) keyword district = Some (Inr [], lg)"
  shows "\<exists>lg. keyword_loop w district ks all_businesses = Some (Inr all_businesses, lg)"
  using assms
proof (induction ks)
  case Nil
  then show ?case by simp
next
  case (Cons keyword ks)
  then obtain lg where
    "search_and_scrape (sessions w keyword district) keyword district = Some (Inr [], lg)"
    by auto
  moreover from Cons obtain lg' where
    "keyword_loop w district ks all_businesses = Some (Inr all_businesses, lg')"
    by auto
  ultimately show ?case by simp
qed

lemma district_loop_nothing_found:
  assumes "\<forall>district\<in>set ds. \<forall>keyword\<in>set search_keywords. \<exists>lg.
    search_and_scrape (sessions w keyword district) keyword district = Some (Inr [], lg)"
  shows "\<exists>lg. district_loop w ds all_businesses = Some (Inr all_businesses, lg)"
  using assms
proof (induction ds)
  case Nil
  then show ?case by simp
next
  case (Cons district ds)
  then have "\<forall>keyword\<in>set search_keywords. \<exists>lg.
    search_and_scrape (sessions w keyword district) keyword district = Some (Inr [], lg)"
    by simp
  then have "\<exists>lg. keyword_loop w district search_keywords all_businesses =
      Some (Inr all_businesses, lg)"
    by (rule keyword_loop_nothing_found)
  then obtain lg where
    "keyword_loop w district search_keywords all_businesses = Some (Inr all_businesses, lg)"
    by blast
  moreover from Cons obtain lg' where
    "district_loop w ds all_businesses = Some (Inr all_businesses, lg')"
    by auto
  ultimately show ?case by simp
qed

lemma main_nothing_found:
  assumes init: "driver_init w = None"
    and empty_results: "\<forall>district\<in>set districts. \<forall>keyword\<in>set search_keywords. \<exists>lg.
      search_and_scrape (sessions w keyword district) keyword district = Some (Inr [], lg)"
  shows "\<exists>raised lg. main w fs = Some (raised, fs, lg) \<and> (WARNING, NoBusinessesFound) \<in> set lg"
proof -
  have "\<exists>lg. district_loop w districts [] = Some (Inr [], lg)"
    using empty_results by (rule district_loop_nothing_found)
  then obtain lg where loop: "district_loop w districts [] = Some (Inr [], lg)"
    by blast
  have fin: "finish w fs (Inr []) = (fs, [(WARNING, NoBusinessesFound)])"
    by (simp add: finish_def)
  show ?thesis
  proof (cases "driver_quit w")
    case None
    with init loop fin have "main w fs =
        Some (None, fs, lg @ [(WARNING, NoBusinessesFound)] @ [(INFO, BrowserClosed)])"
      by (simp add: main_def)
    then show ?thesis by simp
  next
    case (Some e)
    with init loop fin have "main w fs = Some (Some e, fs, lg @ [(WARNING, NoBusinessesFound)])"
      by (simp add: main_def)
    then show ?thesis by simp
  qed
qed

text \<open>
  C8. With an empty list \<open>save_to_csv\<close> returns with the files as they were and one
  warning. And when the driver starts and every search of the run returns the empty list,
  \<open>main\<close> ends with the files as they were and a warning in its log.
\<close>

theorem nothing_saved_without_records:
  "save_to_csv fs [] filename = (None, fs, [(WARNING, NoDataToSave)]) \<and>
   (driver_init w = None \<and>
    (\<forall>district\<in>set districts. \<forall>keyword\<in>set search_keywords. \<exists>lg.
       search_and_scrape (sessions w keyword district) keyword district = Some (Inr [], lg)) \<longrightarrow>
    (\<exists>raised lg. main w fs = Some (raised, fs, lg) \<and> (WARNING, NoBusinessesFound) \<in> set lg))"
proof (intro conjI impI)
  show "save_to_csv fs [] filename = (None, fs, [(WARNING, NoDataToSave)])"
    by (simp add: save_to_csv_def)
next
  assume "driver_init w = None \<and>
    (\<forall>district\<in>set districts. \<forall>keyword\<in>set search_keywords. \<exists>lg.
       search_and_scrape (sessions w keyword district) keyword district = Some (Inr [], lg))"
  then have "driver_init w = None"
    and "\<forall>district\<in>set districts. \<forall>keyword\<in>set search_keywords. \<exists>lg.
       search_and_scrape (sessions w keyword district) keyword district = Some (Inr [], lg)"
    by simp_all
  then show "\<exists>raised lg. main w fs = Some (raised, fs, lg) \<and>
      (WARNING, NoBusinessesFound) \<in> set lg"
    by (rule main_nothing_found)
qed

theorem nothing_saved_without_records_witness:
  "driver_init empty_world = None \<and>
   list_all (\<lambda>district. list_all (\<lambda>keyword. \<exists>lg.
      search_and_scrape (sessions empty_world keyword district) keyword district =
        Some (Inr [], lg)) search_keywords) districts \<and>
   (\<exists>raised lg. main empty_world Map.empty = Some (raised, Map.empty, lg) \<and>
      (WARNING, NoBusinessesFound) \<in> set lg) \<and>
   save_to_csv Map.empty [] (lit ''out.csv'') = (None, Map.empty, [(WARNING, NoDataToSave)])"
proof -
  have init: "driver_init empty_world = None" by (simp add: empty_world_def)
  have empty_results: "\<forall>district\<in>set districts. \<forall>keyword\<in>set search_keywords. \<exists>lg.
      search_and_scrape (sessions empty_world keyword district) keyword district =
        Some (Inr [], lg)"
  proof (intro ballI)
    fix district keyword
    assume "district \<in> set districts" "keyword \<in> set search_keywords"
    then have "\<forall>c\<in>set keyword. c < 0x80" "\<forall>c\<in>set district. c < 0x80"
      by (auto simp: districts_def search_keywords_def lit_def)
    then have "\<exists>lg. search_and_scrape still_page keyword district = Some (Inr [], lg)"
      by (rule search_still_page)
    then show "\<exists>lg. search_and_scrape (sessions empty_world keyword district) keyword district =
        Some (Inr [], lg)"
      by (simp add: empty_world_def)
  qed
  note claim = nothing_saved_without_records [of Map.empty "lit ''out.csv''" empty_world]
  from init empty_results
  have "\<exists>raised lg. main empty_world Map.empty = Some (raised, Map.empty, lg) \<and>
      (WARNING, NoBusinessesFound) \<in> set lg"
    by (intro claim [THEN conjunct2, rule_format] conjI)
  moreover from claim
  have "save_to_csv Map.empty [] (lit ''out.csv'') = (None, Map.empty, [(WARNING, NoDataToSave)])"
    by (rule conjunct1)
  moreover from empty_results
  have "list_all (\<lambda>district. list_all (\<lambda>keyword. \<exists>lg.
      search_and_scrape (sessions empty_world keyword district) keyword district =
        Some (Inr [], lg)) search_keywords) districts"
    by (simp add: list_all_iff)
  ultimately show ?thesis using init by (intro conjI)
qed

end
